theory Spec2Isabelle
  imports Main "HOL-Library.Word" "HOL-Library.Log_Nat" "HOL-Library.Multiset"
begin

unbundle bit_operations_syntax

section \<open>JavaScript values used by ThreadFate\<close>

text \<open>
  A JavaScript string is a sequence of 16-bit code units; \<open>charCodeAt\<close> reads one of them.
  \<open>js\<close> writes an ASCII literal as such a sequence.
\<close>

type_synonym jsstring = "16 word list"

definition js :: "string \<Rightarrow> jsstring" where
  "js s = map (\<lambda>c. of_nat (of_char c)) s"

text \<open>
  A JavaScript number is an IEEE binary64 value: NaN, an infinity, or a finite value, kept
  here as the rational it denotes (the sign of zero is not kept).
\<close>

datatype jsnum = NaN | PInf | NInf | Fin rat

text \<open>
  The values a task field or a persisted setting is modelled to hold: absent
  (\<open>undefined\<close>), \<open>null\<close>, a boolean or a string. Numbers, arrays and objects as field
  values are outside this type.
\<close>

datatype jsval = JUndefined | JNull | JBool bool | JStr jsstring

datatype error = TypeError

fun truthy :: "jsval \<Rightarrow> bool" where
  "truthy JUndefined = False"
| "truthy JNull = False"
| "truthy (JBool b) = b"
| "truthy (JStr s) = (s \<noteq> [])"

fun typeof :: "jsval \<Rightarrow> string" where
  "typeof JUndefined = ''undefined''"
| "typeof JNull = ''object''"
| "typeof (JBool b) = ''boolean''"
| "typeof (JStr s) = ''string''"

subsection \<open>Rounding to binary64\<close>

text \<open>
  \<open>round_half_even_div n d\<close> is the integer nearest to \<open>n / d\<close> (for \<open>d > 0\<close>), ties going
  to the even neighbour. \<open>binade a b\<close> is \<open>\<lfloor>log\<^sub>2 (a / b)\<rfloor>\<close> for positive \<open>a\<close>, \<open>b\<close>.
  \<open>to_double a b\<close> is the binary64 value nearest to \<open>a / b\<close>: 53 significant bits, exponent
  at least \<open>-1022\<close> (subnormals below), infinity from \<open>2 ^ 1024\<close> on.
\<close>

definition round_half_even_div :: "int \<Rightarrow> int \<Rightarrow> int" where
  "round_half_even_div n d =
     (let f = n div d; r = n mod d
      in if 2 * r < d then f else if d < 2 * r then f + 1 else if even f then f else f + 1)"

definition binade :: "int \<Rightarrow> int \<Rightarrow> int" where
  "binade a b =
     (let k = bitlen a - bitlen b
      in if (if 0 \<le> k then b * 2 ^ nat k \<le> a else b \<le> a * 2 ^ nat (- k)) then k else k - 1)"

definition round_binary64 :: "int \<Rightarrow> int \<Rightarrow> rat" where
  "round_binary64 a b =
     (if a = 0 then 0
      else let p = max (binade \<bar>a\<bar> b) (- 1022) - 52
           in if p < 0 then of_int (round_half_even_div (a * 2 ^ nat (- p)) b) / 2 ^ nat (- p)
              else of_int (round_half_even_div a (b * 2 ^ nat p)) * 2 ^ nat p)"

definition to_double :: "int \<Rightarrow> int \<Rightarrow> jsnum" where
  "to_double a b =
     (let v = round_binary64 a b
      in if 2 ^ 1024 \<le> v then PInf else if v \<le> - (2 ^ 1024) then NInf else Fin v)"

definition round_double :: "rat \<Rightarrow> jsnum" where
  "round_double q = (case quotient_of q of (a, b) \<Rightarrow> to_double a b)"

subsection \<open>Arithmetic on numbers\<close>

text \<open>
  \<open>+\<close>, \<open>-\<close>, \<open>*\<close> and \<open>/\<close> round their exact result to binary64; \<open>Math.floor\<close> and
  \<open>%\<close> are exact. \<open>%\<close> takes the sign of the dividend. A zero divisor of \<open>/\<close> counts as
  \<open>+0\<close>, the sign of zero not being kept.
\<close>

fun js_neg :: "jsnum \<Rightarrow> jsnum" where
  "js_neg NaN = NaN"
| "js_neg PInf = NInf"
| "js_neg NInf = PInf"
| "js_neg (Fin a) = Fin (- a)"

fun js_add :: "jsnum \<Rightarrow> jsnum \<Rightarrow> jsnum" where
  "js_add NaN _ = NaN"
| "js_add _ NaN = NaN"
| "js_add PInf NInf = NaN"
| "js_add NInf PInf = NaN"
| "js_add PInf _ = PInf"
| "js_add _ PInf = PInf"
| "js_add NInf _ = NInf"
| "js_add _ NInf = NInf"
| "js_add (Fin a) (Fin b) = round_double (a + b)"

definition js_sub :: "jsnum \<Rightarrow> jsnum \<Rightarrow> jsnum" where
  "js_sub a b = js_add a (js_neg b)"

fun js_mul :: "jsnum \<Rightarrow> jsnum \<Rightarrow> jsnum" where
  "js_mul NaN _ = NaN"
| "js_mul _ NaN = NaN"
| "js_mul (Fin a) (Fin b) = round_double (a * b)"
| "js_mul (Fin a) PInf = (if a = 0 then NaN else if 0 < a then PInf else NInf)"
| "js_mul (Fin a) NInf = (if a = 0 then NaN else if 0 < a then NInf else PInf)"
| "js_mul PInf (Fin b) = (if b = 0 then NaN else if 0 < b then PInf else NInf)"
| "js_mul NInf (Fin b) = (if b = 0 then NaN else if 0 < b then NInf else PInf)"
| "js_mul PInf PInf = PInf"
| "js_mul NInf NInf = PInf"
| "js_mul PInf NInf = NInf"
| "js_mul NInf PInf = NInf"

fun js_div :: "jsnum \<Rightarrow> jsnum \<Rightarrow> jsnum" where
  "js_div NaN _ = NaN"
| "js_div _ NaN = NaN"
| "js_div (Fin a) (Fin b) =
     (if b = 0 then (if a = 0 then NaN else if 0 < a then PInf else NInf)
      else round_double (a / b))"
| "js_div (Fin a) PInf = Fin 0"
| "js_div (Fin a) NInf = Fin 0"
| "js_div PInf (Fin b) = (if 0 \<le> b then PInf else NInf)"
| "js_div NInf (Fin b) = (if 0 \<le> b then NInf else PInf)"
| "js_div PInf PInf = NaN"
| "js_div PInf NInf = NaN"
| "js_div NInf PInf = NaN"
| "js_div NInf NInf = NaN"

definition trunc :: "rat \<Rightarrow> int" where
  "trunc q = (if 0 \<le> q then \<lfloor>q\<rfloor> else \<lceil>q\<rceil>)"

fun js_rem :: "jsnum \<Rightarrow> jsnum \<Rightarrow> jsnum" where
  "js_rem (Fin a) (Fin b) = (if b = 0 then NaN else Fin (a - b * of_int (trunc (a / b))))"
| "js_rem (Fin a) PInf = Fin a"
| "js_rem (Fin a) NInf = Fin a"
| "js_rem _ _ = NaN"

fun js_floor :: "jsnum \<Rightarrow> jsnum" where
  "js_floor (Fin a) = Fin (of_int \<lfloor>a\<rfloor>)"
| "js_floor x = x"

text \<open>Comparisons are false as soon as an operand is NaN.\<close>

fun js_less :: "jsnum \<Rightarrow> jsnum \<Rightarrow> bool" where
  "js_less NaN _ = False"
| "js_less _ NaN = False"
| "js_less _ NInf = False"
| "js_less PInf _ = False"
| "js_less NInf _ = True"
| "js_less _ PInf = True"
| "js_less (Fin a) (Fin b) = (a < b)"

fun js_le :: "jsnum \<Rightarrow> jsnum \<Rightarrow> bool" where
  "js_le NaN _ = False"
| "js_le _ NaN = False"
| "js_le NInf _ = True"
| "js_le _ PInf = True"
| "js_le _ NInf = False"
| "js_le PInf _ = False"
| "js_le (Fin a) (Fin b) = (a \<le> b)"

text \<open>\<open>Math.max\<close> and \<open>Math.min\<close> of two numbers: NaN if either is NaN.\<close>

definition js_max :: "jsnum \<Rightarrow> jsnum \<Rightarrow> jsnum" where
  "js_max a b = (if a = NaN \<or> b = NaN then NaN else if js_less a b then b else a)"

definition js_min :: "jsnum \<Rightarrow> jsnum \<Rightarrow> jsnum" where
  "js_min a b = (if a = NaN \<or> b = NaN then NaN else if js_less b a then b else a)"

subsection \<open>Strings\<close>

text \<open>
  The white space that \<open>trim\<close> and the conversion of a string to a number strip: the
  WhiteSpace and LineTerminator code points of ECMAScript.
\<close>

definition is_ws :: "16 word \<Rightarrow> bool" where
  "is_ws c = (c \<in> {0x9, 0xA, 0xB, 0xC, 0xD, 0x20, 0xA0, 0x1680, 0x2028, 0x2029, 0x202F,
                    0x205F, 0x3000, 0xFEFF} \<or> (0x2000 \<le> c \<and> c \<le> 0x200A))"

definition trim :: "jsstring \<Rightarrow> jsstring" where
  "trim s = rev (dropWhile is_ws (rev (dropWhile is_ws s)))"

text \<open>\<open>s.split(sep)\<close> for a separator of one code unit: never an empty array.\<close>

fun split :: "16 word \<Rightarrow> jsstring \<Rightarrow> jsstring list" where
  "split sep [] = [[]]"
| "split sep (c # cs) =
     (if c = sep then [] # split sep cs
      else (case split sep cs of p # ps \<Rightarrow> (c # p) # ps | [] \<Rightarrow> [[c]]))"

definition is_digit :: "16 word \<Rightarrow> bool" where
  "is_digit c = (0x30 \<le> c \<and> c \<le> 0x39)"

definition is_hex_digit :: "16 word \<Rightarrow> bool" where
  "is_hex_digit c = (is_digit c \<or> (0x41 \<le> c \<and> c \<le> 0x46) \<or> (0x61 \<le> c \<and> c \<le> 0x66))"

definition digit_value :: "16 word \<Rightarrow> int" where
  "digit_value c =
     (if is_digit c then uint c - 0x30
      else if 0x41 \<le> c \<and> c \<le> 0x46 then uint c - 0x41 + 10
      else uint c - 0x61 + 10)"

definition digits_value :: "int \<Rightarrow> jsstring \<Rightarrow> int" where
  "digits_value radix ds = foldl (\<lambda>a c. radix * a + digit_value c) 0 ds"

text \<open>
  \<open>String(n)\<close> for an integer \<open>n\<close> (of magnitude below \<open>10 ^ 21\<close>, where JavaScript
  switches to exponent notation): a minus sign if negative, then the decimal digits.
\<close>

definition digit_char :: "nat \<Rightarrow> 16 word" where
  "digit_char d = of_nat (0x30 + d)"

function digits_of :: "nat \<Rightarrow> jsstring" where
  "digits_of n = (if n < 10 then [digit_char n] else digits_of (n div 10) @ [digit_char (n mod 10)])"
  by pat_completeness auto
termination
  by (relation "measure id") auto

declare digits_of.simps [simp del]

definition String_int :: "int \<Rightarrow> jsstring" where
  "String_int n = (if n < 0 then 0x2D # digits_of (nat (- n)) else digits_of (nat n))"

text \<open>\<open>s.padStart(n, "0")\<close>.\<close>

definition padStart0 :: "jsstring \<Rightarrow> nat \<Rightarrow> jsstring" where
  "padStart0 s n = replicate (n - length s) 0x30 @ s"

text \<open>
  \<open>String(x)\<close> for any number \<open>x\<close> (\<open>Number::toString\<close> of ECMAScript, radix 10). For a
  positive \<open>x\<close> it takes the least number \<open>k\<close> of digits for which some \<open>s\<close> of \<open>k\<close> digits
  and some \<open>n\<close> have \<open>s * 10 ^ (n - k)\<close> round to \<open>x\<close>, and of two such \<open>s\<close> the one nearer to
  \<open>x\<close> (the even one on a tie); then it lays the digits out: plain for \<open>-6 < n \<le> 21\<close>, with
  an exponent otherwise.

  \<open>scale10 x p\<close> is \<open>x * 10 ^ p\<close>. \<open>decimal_exponent x\<close> is the \<open>n\<close> with
  \<open>10 ^ (n - 1) \<le> x < 10 ^ n\<close>. \<open>candidate x n k\<close> is the \<open>s\<close> of \<open>k\<close> digits next to \<open>x\<close>, below
  or above, for which \<open>s * 10 ^ (n - k)\<close> rounds to \<open>x\<close>, if there is one. \<open>shortest\<close> tries
  \<open>k = 1, \<dots>, 17\<close> in turn; a binary64 value always has a candidate of 17 digits, so its
  last case is not reached.
\<close>

definition scale10 :: "rat \<Rightarrow> int \<Rightarrow> rat" where
  "scale10 x p = (if 0 \<le> p then x * 10 ^ nat p else x / 10 ^ nat (- p))"

definition decimal_exponent :: "rat \<Rightarrow> int" where
  "decimal_exponent x =
     (if 1 \<le> x then int (length (digits_of (nat \<lfloor>x\<rfloor>)))
      else 1 - int (length (digits_of (nat (\<lceil>1 / x\<rceil> - 1)))))"

definition candidate :: "rat \<Rightarrow> int \<Rightarrow> nat \<Rightarrow> int option" where
  "candidate x n k =
     (let t = scale10 x (int k - n); lo = \<lfloor>t\<rfloor>; hi = lo + 1;
          oklo = (round_double (scale10 (of_int lo) (n - int k)) = Fin x);
          okhi = (round_double (scale10 (of_int hi) (n - int k)) = Fin x)
      in if oklo \<and> okhi
         then (if t - of_int lo < of_int hi - t then Some lo
               else if of_int hi - t < t - of_int lo then Some hi
               else if even lo then Some lo else Some hi)
         else if oklo then Some lo else if okhi then Some hi else None)"

fun shortest :: "rat \<Rightarrow> int \<Rightarrow> nat list \<Rightarrow> nat \<times> int" where
  "shortest x n [] = (17, \<lfloor>scale10 x (17 - n)\<rfloor>)"
| "shortest x n (k # ks) =
     (case candidate x n k of Some s \<Rightarrow> (k, s) | None \<Rightarrow> shortest x n ks)"

definition Number_toString_pos :: "rat \<Rightarrow> jsstring" where
  "Number_toString_pos x =
     (let n0 = decimal_exponent x;
          (k, s0) = shortest x n0 [1, 2, 3, 4, 5, 6, 7, 8, 9, 10, 11, 12, 13, 14, 15, 16, 17];
          (s, n) = (if s0 = 10 ^ k then (10 ^ (k - 1), n0 + 1) else (s0, n0));
          ds = digits_of (nat s)
      in if int k \<le> n \<and> n \<le> 21 then ds @ replicate (nat (n - int k)) 0x30
         else if 0 < n \<and> n \<le> 21 then take (nat n) ds @ js ''.'' @ drop (nat n) ds
         else if - 6 < n \<and> n \<le> 0 then js ''0.'' @ replicate (nat (- n)) 0x30 @ ds
         else (let e = n - 1;
                   es = (if e < 0 then js ''-'' else js ''+'') @ digits_of (nat \<bar>e\<bar>)
               in if k = 1 then ds @ js ''e'' @ es
                  else take 1 ds @ js ''.'' @ drop 1 ds @ js ''e'' @ es))"

fun Number_toString :: "jsnum \<Rightarrow> jsstring" where
  "Number_toString NaN = js ''NaN''"
| "Number_toString PInf = js ''Infinity''"
| "Number_toString NInf = js ''-Infinity''"
| "Number_toString (Fin x) =
     (if x = 0 then js ''0''
      else if x < 0 then js ''-'' @ Number_toString_pos (- x)
      else Number_toString_pos x)"

subsection \<open>\<open>Number(s)\<close> for a string\<close>

text \<open>
  The StringNumericLiteral grammar: white space is stripped; the empty string is \<open>0\<close>;
  \<open>0x\<close>, \<open>0o\<close> and \<open>0b\<close> literals carry no sign; a decimal literal is an optional sign, then
  \<open>Infinity\<close> or digits with an optional fraction and an optional exponent; anything else is
  NaN. The value is rounded to binary64.
\<close>

definition all_digits :: "jsstring \<Rightarrow> bool" where
  "all_digits ds = (ds \<noteq> [] \<and> list_all is_digit ds)"

definition signed_integer :: "jsstring \<Rightarrow> int option" where
  "signed_integer t =
     (case t of
        [] \<Rightarrow> None
      | d # u \<Rightarrow>
          if d = 0x2B then (if all_digits u then Some (digits_value 10 u) else None)
          else if d = 0x2D then (if all_digits u then Some (- digits_value 10 u) else None)
          else if all_digits t then Some (digits_value 10 t) else None)"

definition exponent_part :: "jsstring \<Rightarrow> int option" where
  "exponent_part r =
     (case r of
        [] \<Rightarrow> Some 0
      | c # t \<Rightarrow> if c = 0x65 \<or> c = 0x45 then signed_integer t else None)"

text \<open>
  An unsigned decimal literal as a pair \<open>(n, e)\<close> denoting \<open>n * 10 ^ e\<close>: \<open>ip\<close> are the digits
  before the point, \<open>fp\<close> those after it.
\<close>

definition unsigned_decimal :: "jsstring \<Rightarrow> (int \<times> int) option" where
  "unsigned_decimal s =
     (let ip = takeWhile is_digit s; r1 = dropWhile is_digit s;
          dot = (r1 \<noteq> [] \<and> hd r1 = 0x2E);
          fp = (if dot then takeWhile is_digit (tl r1) else []);
          r2 = (if dot then dropWhile is_digit (tl r1) else r1)
      in if ip = [] \<and> fp = [] then None
         else (case exponent_part r2 of
                 None \<Rightarrow> None
               | Some x \<Rightarrow> Some (digits_value 10 (ip @ fp), x - int (length fp))))"

definition decimal_value :: "int \<times> int \<Rightarrow> jsnum" where
  "decimal_value ne =
     (case ne of (n, e) \<Rightarrow> if 0 \<le> e then to_double (n * 10 ^ nat e) 1 else to_double n (10 ^ nat (- e)))"

definition str_unsigned_decimal :: "jsstring \<Rightarrow> jsnum" where
  "str_unsigned_decimal s =
     (if s = js ''Infinity'' then PInf
      else (case unsigned_decimal s of None \<Rightarrow> NaN | Some ne \<Rightarrow> decimal_value ne))"

definition non_decimal :: "jsstring \<Rightarrow> jsnum option" where
  "non_decimal s =
     (case s of
        z # p # ds \<Rightarrow>
          if z = 0x30 \<and> (p = 0x78 \<or> p = 0x58) \<and> ds \<noteq> [] \<and> list_all is_hex_digit ds
            then Some (to_double (digits_value 16 ds) 1)
          else if z = 0x30 \<and> (p = 0x6F \<or> p = 0x4F) \<and> ds \<noteq> []
                  \<and> list_all (\<lambda>c. 0x30 \<le> c \<and> c \<le> 0x37) ds
            then Some (to_double (digits_value 8 ds) 1)
          else if z = 0x30 \<and> (p = 0x62 \<or> p = 0x42) \<and> ds \<noteq> []
                  \<and> list_all (\<lambda>c. c = 0x30 \<or> c = 0x31) ds
            then Some (to_double (digits_value 2 ds) 1)
          else None
      | _ \<Rightarrow> None)"

definition Number :: "jsstring \<Rightarrow> jsnum" where
  "Number str =
     (let s = trim str
      in if s = [] then Fin 0
         else (case non_decimal s of
                 Some v \<Rightarrow> v
               | None \<Rightarrow>
                   if hd s = 0x2B then str_unsigned_decimal (tl s)
                   else if hd s = 0x2D then js_neg (str_unsigned_decimal (tl s))
                   else str_unsigned_decimal s))"

section \<open>Time codec (src/src/App.jsx)\<close>

definition clamp :: "jsnum \<Rightarrow> jsnum \<Rightarrow> jsnum \<Rightarrow> jsnum" where
  "clamp v lo hi = js_max lo (js_min hi v)"

text \<open>
  \<open>toMinutes\<close>: the guard on falsy and non-string arguments, \<open>split(":").map(Number)\<close>, the
  guard on a missing part or a NaN part, then
  \<open>(Math.floor(h) % 24) * 60 + clamp(Math.floor(m), 0, 59)\<close>.
\<close>

definition toMinutes :: "jsval \<Rightarrow> jsnum" where
  "toMinutes timeStr =
     (if \<not> truthy timeStr \<or> typeof timeStr \<noteq> ''string'' then Fin 0
      else (case timeStr of
              JStr s \<Rightarrow>
                (case map Number (split 0x3A s) of
                   h # m # _ \<Rightarrow>
                     if h = NaN \<or> m = NaN then Fin 0
                     else js_add (js_mul (js_rem (js_floor h) (Fin 24)) (Fin 60))
                                 (clamp (js_floor m) (Fin 0) (Fin 59))
                 | _ \<Rightarrow> Fin 0)
            | _ \<Rightarrow> Fin 0))"

definition pad2 :: "int \<Rightarrow> jsstring" where
  "pad2 n = padStart0 (String_int n) 2"

text \<open>The remainder \<open>a % b\<close> of two integers: the sign of \<open>a\<close>.\<close>

definition rem :: "int \<Rightarrow> int \<Rightarrow> int" where
  "rem a b = sgn a * (\<bar>a\<bar> mod \<bar>b\<bar>)"

text \<open>
  \<open>fromMinutes\<close> at an integer argument, where every operation is exact:
  \<open>safe = Math.floor((mins % 1440 + 1440) % 1440)\<close>, \<open>h = Math.floor(safe / 60)\<close>,
  \<open>m = safe % 60\<close>.
\<close>

definition safe :: "int \<Rightarrow> int" where
  "safe mins = rem (rem mins (24 * 60) + 24 * 60) (24 * 60)"

definition fromMinutes :: "int \<Rightarrow> jsstring" where
  "fromMinutes mins =
     (let h = safe mins div 60;
          m = rem (safe mins) 60
      in pad2 h @ js '':'' @ pad2 m)"

text \<open>
  \<open>fromMinutes(toMinutes(x))\<close>: \<open>toMinutes\<close> returns an integer or NaN; \<open>fromMinutes\<close> is modelled
  at integers, so the composition is \<open>None\<close> where \<open>toMinutes\<close> gives NaN.
\<close>

definition fromMinutes_toMinutes :: "jsstring \<Rightarrow> jsstring option" where
  "fromMinutes_toMinutes x =
     (case toMinutes (JStr x) of
        Fin q \<Rightarrow> if of_int \<lfloor>q\<rfloor> = q then Some (fromMinutes \<lfloor>q\<rfloor>) else None
      | _ \<Rightarrow> None)"

text \<open>A well-formed \<open>HH:MM\<close> string: two digits, a colon, two digits, hour below 24, minute below 60.\<close>

definition well_formed :: "jsstring \<Rightarrow> bool" where
  "well_formed x =
     (case x of
        [a, b, k, c, d] \<Rightarrow>
          is_digit a \<and> is_digit b \<and> k = 0x3A \<and> is_digit c \<and> is_digit d
          \<and> 10 * digit_value a + digit_value b < 24 \<and> 10 * digit_value c + digit_value d < 60
      | _ \<Rightarrow> False)"

section \<open>Time codec (src/app.jsx)\<close>

text \<open>
  The older file has the same two functions without guards. \<open>timeStr.split\<close> throws a
  TypeError when \<open>timeStr\<close> is not a string; a missing minute part is \<open>undefined\<close>, and
  \<open>h * 60 + undefined\<close> is NaN.
\<close>

definition toMinutes_app :: "jsval \<Rightarrow> error + jsnum" where
  "toMinutes_app timeStr =
     (case timeStr of
        JStr s \<Rightarrow>
          Inr (case map Number (split 0x3A s) of
                 h # m # _ \<Rightarrow> js_add (js_mul h (Fin 60)) m
               | _ \<Rightarrow> NaN)
      | _ \<Rightarrow> Inl TypeError)"

text \<open>
  \<open>pad2\<close> and \<open>fromMinutes\<close> of src/app.jsx, at any number: \<open>h = Math.floor(mins / 60) % 24\<close>
  with the quotient rounded to binary64, \<open>m = mins % 60\<close>, and \<open>String\<close> of each padded to two
  places.
\<close>

definition pad2_app :: "jsnum \<Rightarrow> jsstring" where
  "pad2_app n = padStart0 (Number_toString n) 2"

definition fromMinutes_app :: "jsnum \<Rightarrow> jsstring" where
  "fromMinutes_app mins =
     (let h = js_rem (js_floor (js_div mins (Fin 60))) (Fin 24);
          m = js_rem mins (Fin 60)
      in pad2_app h @ js '':'' @ pad2_app m)"

section \<open>Color derivation (src/src/App.jsx)\<close>

definition palettes :: "jsstring list list" where
  "palettes =
     [[js ''#4857FF'', js ''#00BFA6'', js ''#FF6B6B'', js ''#FFD166'', js ''#7F5AF0'', js ''#2CB67D''],
      [js ''#0EA5E9'', js ''#F59E0B'', js ''#10B981'', js ''#EC4899'', js ''#8B5CF6'', js ''#F43F5E''],
      [js ''#FF6B35'', js ''#F7C59F'', js ''#EFEFD0'', js ''#004E89'', js ''#1A659E'', js ''#16DB93''],
      [js ''#3A86FF'', js ''#8338EC'', js ''#FF006E'', js ''#FB5607'', js ''#FFBE0B'', js ''#2EC4B6'']]"

text \<open>\<open>a || b\<close> and \<open>String(v)\<close>.\<close>

definition js_or :: "jsval \<Rightarrow> jsval \<Rightarrow> jsval" where
  "js_or a b = (if truthy a then a else b)"

fun ToString :: "jsval \<Rightarrow> jsstring" where
  "ToString JUndefined = js ''undefined''"
| "ToString JNull = js ''null''"
| "ToString (JBool b) = (if b then js ''true'' else js ''false'')"
| "ToString (JStr s) = s"

text \<open>\<open>x >>> 0\<close>: the integer part of \<open>x\<close> modulo \<open>2 ^ 32\<close>; \<open>0\<close> for NaN and the infinities.\<close>

fun ToUint32 :: "jsnum \<Rightarrow> 32 word" where
  "ToUint32 (Fin q) = word_of_int (trunc q)"
| "ToUint32 _ = 0"

text \<open>
  One round of the loop, \<open>h = ((h ^ str.charCodeAt(i)) * 16777619) >>> 0\<close>. \<open>h\<close> holds an
  unsigned 32-bit value. \<open>^\<close> gives a signed 32-bit integer; \<open>*\<close> is the multiplication of
  numbers, whose product is rounded to binary64 before \<open>>>> 0\<close> reduces it.
\<close>

definition hash_step :: "32 word \<Rightarrow> 16 word \<Rightarrow> 32 word" where
  "hash_step h c = ToUint32 (js_mul (Fin (of_int (sint (h XOR ucast c)))) (Fin 16777619))"

text \<open>\<open>xs[i]\<close> on an array: \<open>undefined\<close> out of range, written \<open>None\<close>.\<close>

definition index :: "'a list \<Rightarrow> nat \<Rightarrow> 'a option" where
  "index xs i = (if i < length xs then Some (xs ! i) else None)"

text \<open>
  \<open>hashColor\<close>. Reading \<open>pal.length\<close> of an \<open>undefined\<close> palette would throw a TypeError; an
  index out of range in the palette would return \<open>undefined\<close>.
\<close>

definition hashColor :: "jsval \<Rightarrow> error + jsval" where
  "hashColor s =
     (let str = ToString (js_or s (JStr []));
          h = foldl hash_step 2166136261 str
      in case index palettes (unat h mod length palettes) of
           None \<Rightarrow> Inl TypeError
         | Some pal \<Rightarrow>
             Inr (case index pal ((unat (drop_bit 7 h) mod length pal + length pal) mod length pal) of
                    None \<Rightarrow> JUndefined
                  | Some c \<Rightarrow> JStr c))"

text \<open>
  \<open>isValidHex\<close>: false unless a string; then the regular expression
  \<open>/^#([0-9a-fA-F]{3}|[0-9a-fA-F]{6})$/\<close> on the trimmed string.
\<close>

definition isValidHex :: "jsval \<Rightarrow> bool" where
  "isValidHex hex =
     (if typeof hex \<noteq> ''string'' then False
      else (case hex of
              JStr s \<Rightarrow>
                (case trim s of
                   [] \<Rightarrow> False
                 | c # ds \<Rightarrow> c = 0x23 \<and> (length ds = 3 \<or> length ds = 6) \<and> list_all is_hex_digit ds)
            | _ \<Rightarrow> False))"

text \<open>
  The sentence of the specification on \<open>isValidHexColor\<close>, in its words: exactly 3 or 6 hex
  digits after an optional leading \<open>#\<close>.
\<close>

definition spec_isValidHexColor :: "jsstring \<Rightarrow> bool" where
  "spec_isValidHexColor s =
     (let ds = (case s of c # r \<Rightarrow> if c = 0x23 then r else s | [] \<Rightarrow> s)
      in (length ds = 3 \<or> length ds = 6) \<and> list_all is_hex_digit ds)"

section \<open>The older file (src/app.jsx): color and day span\<close>

text \<open>
  \<open>hashColor\<close> of src/app.jsx reads \<open>s.length\<close> at once: a TypeError for \<open>undefined\<close> and
  \<open>null\<close>; a boolean has no \<open>length\<close>, so the loop does not run. The hash
  \<open>h = (h * 31 + s.charCodeAt(i)) >>> 0\<close> stays below \<open>2 ^ 53\<close> before it is reduced.
\<close>

definition hash_step_app :: "32 word \<Rightarrow> 16 word \<Rightarrow> 32 word" where
  "hash_step_app h c = ToUint32 (js_add (js_mul (Fin (of_int (uint h))) (Fin 31)) (Fin (of_int (uint c))))"

definition hashColor_app :: "jsval \<Rightarrow> error + jsval" where
  "hashColor_app s =
     (case s of
        JUndefined \<Rightarrow> Inl TypeError
      | JNull \<Rightarrow> Inl TypeError
      | _ \<Rightarrow>
          (let h = (case s of JStr str \<Rightarrow> foldl hash_step_app 0 str | _ \<Rightarrow> 0)
           in case index palettes (unat h mod length palettes) of
                None \<Rightarrow> Inl TypeError
              | Some pal \<Rightarrow>
                  Inr (case index pal (unat (drop_bit 3 h) mod length pal) of
                         None \<Rightarrow> JUndefined
                       | Some c \<Rightarrow> JStr c)))"

text \<open>\<open>daySpan = Math.max(60, maxDay - minDay)\<close> with the unclamped, unguarded \<open>toMinutes\<close>.\<close>

definition daySpan_app :: "jsval \<Rightarrow> jsval \<Rightarrow> error + jsnum" where
  "daySpan_app gridStart gridEnd =
     (case toMinutes_app gridStart of
        Inl err \<Rightarrow> Inl err
      | Inr minD \<Rightarrow>
          (case toMinutes_app gridEnd of
             Inl err \<Rightarrow> Inl err
           | Inr maxD \<Rightarrow> Inr (js_max (Fin 60) (js_sub maxD minD))))"

section \<open>Layout and drawing (src/src/App.jsx)\<close>

subsection \<open>Day window\<close>

definition minDay :: "jsval \<Rightarrow> jsnum" where
  "minDay gridStart = clamp (toMinutes gridStart) (Fin 0) (Fin (24 * 60 - 1))"

definition maxDay :: "jsval \<Rightarrow> jsnum" where
  "maxDay gridEnd = clamp (toMinutes gridEnd) (Fin 1) (Fin (24 * 60))"

definition rawSpan :: "jsval \<Rightarrow> jsval \<Rightarrow> jsnum" where
  "rawSpan gridStart gridEnd =
     (if js_less (minDay gridStart) (maxDay gridEnd)
      then js_sub (maxDay gridEnd) (minDay gridStart) else Fin 60)"

definition daySpan :: "jsval \<Rightarrow> jsval \<Rightarrow> jsnum" where
  "daySpan gridStart gridEnd = js_max (Fin 60) (rawSpan gridStart gridEnd)"

subsection \<open>Tasks and their order\<close>

record task =
  tid :: jsval
  title :: jsval
  start :: jsval
  tend :: jsval
  color :: jsval

text \<open>
  \<open>Array.prototype.sort\<close> with a comparator is stable, and for a comparator that orders the
  elements consistently its result is determined: the stable sorted arrangement, computed
  here by insertion. \<open>x\<close> goes behind \<open>y\<close> only where \<open>cmp x y > 0\<close>; a NaN counts as \<open>0\<close>.
\<close>

fun insort_cmp :: "('a \<Rightarrow> 'a \<Rightarrow> jsnum) \<Rightarrow> 'a \<Rightarrow> 'a list \<Rightarrow> 'a list" where
  "insort_cmp cmp x [] = [x]"
| "insort_cmp cmp x (y # ys) =
     (if js_less (Fin 0) (cmp x y) then y # insort_cmp cmp x ys else x # y # ys)"

definition sort_cmp :: "('a \<Rightarrow> 'a \<Rightarrow> jsnum) \<Rightarrow> 'a list \<Rightarrow> 'a list" where
  "sort_cmp cmp xs = foldr (insort_cmp cmp) xs []"

text \<open>\<open>sorted = [...tasks].sort((a, b) => toMinutes(a.start) - toMinutes(b.start))\<close>.\<close>

definition sorted_tasks :: "task list \<Rightarrow> task list" where
  "sorted_tasks tasks =
     sort_cmp (\<lambda>a b. js_sub (toMinutes (start a)) (toMinutes (start b))) tasks"

text \<open>
  The comparator of that sort, and the start minute of a task as a rational (\<open>0\<close> where
  \<open>toMinutes\<close> gives no finite number), used to state the order.
\<close>

definition cmp_start :: "task \<Rightarrow> task \<Rightarrow> jsnum" where
  "cmp_start a b = js_sub (toMinutes (start a)) (toMinutes (start b))"

definition start_key :: "task \<Rightarrow> rat" where
  "start_key t = (case toMinutes (start t) of Fin q \<Rightarrow> q | _ \<Rightarrow> 0)"

subsection \<open>The bands painted by the draw effect\<close>

text \<open>
  \<open>H = clamp(Math.floor(parent.clientHeight || 420), 320, 1200)\<close> for an integer
  \<open>clientHeight\<close>; \<open>usableHeight = Math.max(120, H - 160)\<close>;
  \<open>maxRows = Math.max(1, Math.floor(usableHeight / (rowHeight + gaps)))\<close>.
\<close>

definition rowHeight :: int where
  "rowHeight = 24"

definition gaps :: int where
  "gaps = 10"

definition canvas_H :: "int \<Rightarrow> int" where
  "canvas_H clientHeight = max 320 (min 1200 (if clientHeight = 0 then 420 else clientHeight))"

definition usableHeight :: "int \<Rightarrow> int" where
  "usableHeight H = max 120 (H - 160)"

definition maxRows :: "int \<Rightarrow> int" where
  "maxRows H = max 1 (usableHeight H div (rowHeight + gaps))"

text \<open>
  What the loop over \<open>sorted\<close> fixes for a task it paints: the task, its index \<open>idx\<close> in
  \<open>sorted\<close>, the clamped minutes \<open>s\<close> and \<open>e\<close>, \<open>row\<close>, \<open>y\<close> and \<open>safeColor\<close>. The horizontal
  pixel positions are not modelled.
\<close>

record band =
  band_task :: task
  band_idx :: nat
  band_s :: jsnum
  band_e :: jsnum
  band_row :: int
  band_y :: int
  band_color :: jsval

definition clamped_start :: "jsnum \<Rightarrow> jsnum \<Rightarrow> task \<Rightarrow> jsnum" where
  "clamped_start minD dspan t = clamp (toMinutes (start t)) minD (js_add minD dspan)"

definition clamped_end :: "jsnum \<Rightarrow> jsnum \<Rightarrow> task \<Rightarrow> jsnum" where
  "clamped_end minD dspan t = clamp (toMinutes (tend t)) minD (js_add minD dspan)"

definition safeColor :: "task \<Rightarrow> error + jsval" where
  "safeColor t = (if isValidHex (color t) then Inr (color t) else hashColor (title t))"

text \<open>
  The body of \<open>sorted.forEach((task, idx) => ...)\<close>, from index \<open>idx\<close> on: \<open>if (e <= s) return\<close>
  skips the task; an exception ends the loop.
\<close>

fun paint :: "jsnum \<Rightarrow> jsnum \<Rightarrow> int \<Rightarrow> nat \<Rightarrow> task list \<Rightarrow> error + band list" where
  "paint minD dspan rows idx [] = Inr []"
| "paint minD dspan rows idx (t # ts) =
     (let s = clamped_start minD dspan t; e = clamped_end minD dspan t
      in if js_le e s then paint minD dspan rows (Suc idx) ts
         else (let row = int idx mod rows; y = 64 + row * (rowHeight + gaps)
               in case safeColor t of
                    Inl err \<Rightarrow> Inl err
                  | Inr c \<Rightarrow>
                      (case paint minD dspan rows (Suc idx) ts of
                         Inl err \<Rightarrow> Inl err
                       | Inr bs \<Rightarrow>
                           Inr (\<lparr>band_task = t, band_idx = idx, band_s = s, band_e = e,
                                 band_row = row, band_y = y, band_color = c\<rparr> # bs))))"

text \<open>
  The state the draw effect reads, and the effect on a mounted canvas of the given
  \<open>clientHeight\<close>: it returns the state it was given and the bands it painted. The effect
  assigns to no part of the state; grid lines, weft lines, labels, shuttle and border are
  not modelled.
\<close>

record app =
  tasks :: "task list"
  gridStart :: jsval
  gridEnd :: jsval

definition Draw :: "app \<Rightarrow> int \<Rightarrow> error + app \<times> band list" where
  "Draw a clientHeight =
     (let minD = minDay (gridStart a);
          dspan = daySpan (gridStart a) (gridEnd a);
          rows = maxRows (canvas_H clientHeight)
      in case paint minD dspan rows 0 (sorted_tasks (tasks a)) of
           Inl err \<Rightarrow> Inl err
         | Inr bs \<Rightarrow> Inr (a, bs))"

text \<open>The condition \<open>e <= s\<close> of the skip branch, for a task.\<close>

definition skipped :: "jsnum \<Rightarrow> jsnum \<Rightarrow> task \<Rightarrow> bool" where
  "skipped minD dspan t = js_le (clamped_end minD dspan t) (clamped_start minD dspan t)"

text \<open>
  The skip rule as the specification words it, for comparison with \<open>Draw\<close>: a skipped task
  is excluded from layout, so the loop runs over the tasks that remain and counts its
  rows over them.
\<close>

definition spec_Draw :: "app \<Rightarrow> int \<Rightarrow> error + app \<times> band list" where
  "spec_Draw a clientHeight =
     (let minD = minDay (gridStart a);
          dspan = daySpan (gridStart a) (gridEnd a);
          rows = maxRows (canvas_H clientHeight)
      in case paint minD dspan rows 0
                (filter (\<lambda>t. \<not> skipped minD dspan t) (sorted_tasks (tasks a))) of
           Inl err \<Rightarrow> Inl err
         | Inr bs \<Rightarrow> Inr (a, bs))"

subsection \<open>Example data\<close>

text \<open>
  The day window \<open>06:00\<close> to \<open>22:00\<close> (the defaults of \<open>gridStart\<close> and \<open>gridEnd\<close>), two of
  the \<open>defaultTasks\<close>, a task that ends before it starts, a task without a title whose
  color is not a hex string, and a task after the end of the window.
\<close>

definition task_deep_work :: task where
  "task_deep_work =
     \<lparr>tid = JStr (js ''id-1''), title = JStr (js ''Deep Work''), start = JStr (js ''09:00''),
      tend = JStr (js ''11:00''), color = JStr (js ''#FFD166'')\<rparr>"

definition task_workout :: task where
  "task_workout =
     \<lparr>tid = JStr (js ''id-2''), title = JStr (js ''Workout''), start = JStr (js ''12:30''),
      tend = JStr (js ''13:15''), color = JStr (js ''#4857FF'')\<rparr>"

definition task_backwards :: task where
  "task_backwards =
     \<lparr>tid = JStr (js ''id-3''), title = JStr (js ''Backwards''), start = JStr (js ''10:00''),
      tend = JStr (js ''09:00''), color = JStr (js ''#4857FF'')\<rparr>"

definition task_untitled :: task where
  "task_untitled =
     \<lparr>tid = JStr (js ''id-4''), title = JUndefined, start = JStr (js ''09:00''),
      tend = JStr (js ''11:00''), color = JStr (js ''red'')\<rparr>"

definition task_late :: task where
  "task_late =
     \<lparr>tid = JStr (js ''id-5''), title = JStr (js ''Late''), start = JStr (js ''22:30''),
      tend = JStr (js ''23:30''), color = JStr (js ''#4857FF'')\<rparr>"

definition app_of :: "task list \<Rightarrow> app" where
  "app_of ts = \<lparr>tasks = ts, gridStart = JStr (js ''06:00''), gridEnd = JStr (js ''22:00'')\<rparr>"

section \<open>Facts about the arithmetic\<close>

text \<open>An integer of magnitude below \<open>2 ^ 53\<close> is a binary64 value: rounding keeps it.\<close>

lemma bitlen_one: "bitlen 1 = 1"
  by (simp add: bitlen_alt_def)

lemma round_half_even_div_one: "round_half_even_div x 1 = x"
  by (simp add: round_half_even_div_def)

lemma binade_int_le:
  assumes "0 < a" "a < 2 ^ 53"
  shows "binade a 1 \<le> 52"
proof -
  have "bitlen a \<le> 53" using assms by (simp add: bitlen_le_iff_power)
  then show ?thesis by (simp add: binade_def bitlen_one Let_def)
qed

lemma round_binary64_int:
  assumes "\<bar>n\<bar> < 2 ^ 53"
  shows "round_binary64 n 1 = of_int n"
proof (cases "n = 0")
  case True
  then show ?thesis by (simp add: round_binary64_def)
next
  case False
  then have "0 < \<bar>n\<bar>" by simp
  then have le: "binade \<bar>n\<bar> 1 \<le> 52" using assms by (rule binade_int_le)
  define p where "p = max (binade \<bar>n\<bar> 1) (- 1022) - 52"
  have p: "p \<le> 0" using le by (simp add: p_def)
  show ?thesis
  proof (cases "p < 0")
    case True
    then show ?thesis using False
      by (simp add: round_binary64_def p_def [symmetric] Let_def round_half_even_div_one)
  next
    case False
    with p have "p = 0" by simp
    then show ?thesis using \<open>n \<noteq> 0\<close>
      by (simp add: round_binary64_def p_def [symmetric] Let_def round_half_even_div_one)
  qed
qed

lemma to_double_int:
  assumes "\<bar>n\<bar> < 2 ^ 53"
  shows "to_double n 1 = Fin (of_int n)"
proof -
  have "\<bar>(of_int n :: rat)\<bar> < 2 ^ 53"
    using assms by (metis of_int_abs of_int_less_numeral_power_cancel_iff)
  also have "(2::rat) ^ 53 < 2 ^ 1024" by simp
  finally have "\<bar>(of_int n :: rat)\<bar> < 2 ^ 1024" .
  then have "\<not> 2 ^ 1024 \<le> (of_int n :: rat)" "\<not> (of_int n :: rat) \<le> - (2 ^ 1024)"
    by linarith+
  then show ?thesis using assms by (simp add: to_double_def round_binary64_int Let_def)
qed

lemma round_double_int:
  "\<bar>n\<bar> < 2 ^ 53 \<Longrightarrow> round_double (of_int n) = Fin (of_int n)"
  by (simp add: round_double_def to_double_int)

text \<open>
  Rounding moves a value of magnitude below \<open>2 ^ 48\<close> by at most \<open>1 / 64\<close>: such a value has
  at least six binary places. So \<open>Math.floor(n / 60)\<close> is \<open>n div 60\<close> for an integer \<open>n\<close> of
  magnitude below \<open>2 ^ 53\<close>.
\<close>

lemma round_half_even_div_near:
  assumes "0 < d"
  shows "\<bar>(of_int (round_half_even_div n d) :: rat) - of_int n / of_int d\<bar> \<le> 1 / 2"
proof -
  define f where "f = n div d"
  define r where "r = n mod d"
  have n: "n = d * f + r" by (simp add: f_def r_def)
  have r: "0 \<le> r" "r < d" using assms by (simp_all add: r_def)
  have dq: "(0::rat) < of_int d" using assms by simp
  have q: "(of_int n :: rat) / of_int d = of_int f + of_int r / of_int d"
    using dq by (simp add: n field_simps)
  have lo: "(0::rat) \<le> of_int r / of_int d" using r dq by simp
  have hi: "(of_int r :: rat) / of_int d < 1" using r dq by simp
  consider "2 * r < d" | "d < 2 * r" | "2 * r = d" by linarith
  then show ?thesis
  proof cases
    case 1
    then have "(of_int r :: rat) / of_int d < 1 / 2"
      using dq by (simp add: field_simps flip: of_int_mult)
    moreover have "round_half_even_div n d = f"
      using 1 by (simp add: round_half_even_div_def f_def r_def Let_def)
    ultimately show ?thesis using lo unfolding q by simp
  next
    case 2
    then have "(of_int d :: rat) < 2 * of_int r"
      by (metis of_int_less_iff of_int_mult of_int_numeral)
    then have "1 / 2 < (of_int r :: rat) / of_int d"
      using dq by (simp add: field_simps)
    moreover have "round_half_even_div n d = f + 1"
      using 2 by (simp add: round_half_even_div_def f_def r_def Let_def)
    ultimately show ?thesis using hi unfolding q by simp
  next
    case 3
    then have "(of_int d :: rat) = 2 * of_int r"
      by (metis of_int_mult of_int_numeral)
    then have h: "(of_int r :: rat) / of_int d = 1 / 2"
      using dq by (simp add: field_simps)
    have "round_half_even_div n d = f \<or> round_half_even_div n d = f + 1"
      using 3 by (simp add: round_half_even_div_def f_def r_def Let_def)
    then show ?thesis unfolding q h by auto
  qed
qed

lemma binade_le:
  assumes "0 < a" "0 < b" "a < b * 2 ^ 48"
  shows "binade a b \<le> 47"
proof -
  define k where "k = bitlen a - bitlen b"
  have la: "2 ^ nat (bitlen a - 1) \<le> a" using bitlen_bounds [OF assms(1)] by simp
  have lb: "b < 2 ^ nat (bitlen b)" using bitlen_bounds [OF assms(2)] by simp
  have pa: "1 \<le> bitlen a" using assms(1) by (auto simp: bitlen_alt_def)
  have pb: "1 \<le> bitlen b" using assms(2) by (auto simp: bitlen_alt_def)
  have "b * 2 ^ 48 < 2 ^ nat (bitlen b) * 2 ^ 48" using lb by simp
  also have "\<dots> = 2 ^ (nat (bitlen b) + 48)" by (simp add: power_add)
  finally have "(2::int) ^ nat (bitlen a - 1) < 2 ^ (nat (bitlen b) + 48)"
    using la assms(3) by linarith
  then have "nat (bitlen a - 1) < nat (bitlen b) + 48"
    by (simp add: power_strict_increasing_iff)
  then have k: "k \<le> 48" using pa pb by (simp add: k_def)
  show ?thesis
  proof (cases "k = 48")
    case True
    then have "\<not> b * 2 ^ nat k \<le> a" using assms(3) by simp
    then show ?thesis using True by (simp add: binade_def k_def [symmetric] Let_def)
  next
    case False
    with k have "k \<le> 47" by simp
    then show ?thesis by (simp add: binade_def k_def [symmetric] Let_def)
  qed
qed

lemma round_binary64_near:
  assumes "0 < b" "\<bar>a\<bar> < b * 2 ^ 48"
  shows "\<bar>round_binary64 a b - of_int a / of_int b\<bar> \<le> 1 / 64"
proof (cases "a = 0")
  case True
  then show ?thesis by (simp add: round_binary64_def)
next
  case False
  then have "0 < \<bar>a\<bar>" by simp
  then have "binade \<bar>a\<bar> b \<le> 47" using assms by (rule binade_le)
  define p where "p = max (binade \<bar>a\<bar> b) (- 1022) - 52"
  have p: "p \<le> - 5" using \<open>binade \<bar>a\<bar> b \<le> 47\<close> by (simp add: p_def)
  define m where "m = nat (- p)"
  have m: "5 \<le> m" using p by (simp add: m_def)
  have v: "round_binary64 a b = of_int (round_half_even_div (a * 2 ^ m) b) / 2 ^ m"
    using False p by (simp add: round_binary64_def p_def [symmetric] m_def Let_def)
  have "(2::rat) ^ 5 \<le> 2 ^ m" using m power_increasing [of 5 m "2::rat"] by simp
  then have g: "(32::rat) \<le> 2 ^ m" by simp
  define X where "X = (of_int (round_half_even_div (a * 2 ^ m) b) :: rat)"
  define c where "c = (2::rat) ^ m"
  have c: "0 < c" by (simp add: c_def)
  have e: "(of_int (a * 2 ^ m) :: rat) / of_int b = of_int a / of_int b * c"
    by (simp add: c_def)
  have h: "\<bar>X - of_int a / of_int b * c\<bar> \<le> 1 / 2"
    using round_half_even_div_near [OF assms(1), of "a * 2 ^ m"] unfolding e X_def .
  have "X / c - of_int a / of_int b = (X - of_int a / of_int b * c) / c"
    using c by (simp add: field_simps)
  then have "\<bar>X / c - of_int a / of_int b\<bar> = \<bar>X - of_int a / of_int b * c\<bar> / c"
    using c by (simp only: abs_divide abs_of_pos)
  also have "\<dots> \<le> (1 / 2) / c" using h c by (simp only: divide_right_mono less_imp_le)
  also have "\<dots> \<le> (1 / 2) / 32" using g c by (simp add: c_def field_simps)
  finally show ?thesis unfolding v X_def c_def by simp
qed

lemma round_double_near:
  assumes "\<bar>x\<bar> < 2 ^ 48"
  shows "\<exists>v. round_double x = Fin v \<and> \<bar>v - x\<bar> \<le> 1 / 64"
proof -
  obtain a b where q: "quotient_of x = (a, b)" by (cases "quotient_of x")
  have b: "0 < b" using q by (rule quotient_of_denom_pos)
  have x: "x = of_int a / of_int b" using q by (rule quotient_of_div)
  have bq: "(0::rat) < of_int b" using b by simp
  have "\<bar>(of_int a :: rat)\<bar> < of_int b * 2 ^ 48"
    using assms bq unfolding x by (simp add: abs_divide field_simps)
  then have "(of_int \<bar>a\<bar> :: rat) < of_int (b * 2 ^ 48)" by simp
  then have a: "\<bar>a\<bar> < b * 2 ^ 48" by (simp only: of_int_less_iff)
  define v where "v = round_binary64 a b"
  have n: "\<bar>v - x\<bar> \<le> 1 / 64"
    unfolding v_def x using b a by (rule round_binary64_near)
  then have "\<bar>v\<bar> \<le> \<bar>x\<bar> + 1 / 64" by linarith
  also have "\<dots> < 2 ^ 48 + 1 / 64" using assms by simp
  also have "\<dots> < (2::rat) ^ 1024" by simp
  finally have "\<not> 2 ^ 1024 \<le> v" "\<not> v \<le> - (2 ^ 1024)" by linarith+
  then have "round_double x = Fin v"
    by (simp add: round_double_def q to_double_def v_def [symmetric] Let_def)
  with n show ?thesis by blast
qed

lemma js_div_60_floor:
  assumes "\<bar>n\<bar> < 2 ^ 53"
  shows "js_floor (js_div (Fin (of_int n)) (Fin 60)) = Fin (of_int (n div 60))"
proof -
  define k where "k = n div 60"
  define r where "r = n mod 60"
  have n: "n = 60 * k + r" by (simp add: k_def r_def)
  have r: "0 \<le> r" "r \<le> 59" by (simp_all add: r_def)
  have x: "(of_int n :: rat) / 60 = of_int k + of_int r / 60"
    unfolding n by simp
  show ?thesis
  proof (cases "r = 0")
    case True
    have "\<bar>n\<bar> = 60 * \<bar>k\<bar>" unfolding n True by (simp add: abs_mult)
    then have "\<bar>k\<bar> < 2 ^ 53" using assms by simp
    then have "round_double (of_int k) = Fin (of_int k)" by (rule round_double_int)
    then show ?thesis using True by (simp add: x k_def [symmetric])
  next
    case False
    then have rq: "(1::rat) / 60 \<le> of_int r / 60" "(of_int r :: rat) / 60 \<le> 59 / 60"
      using r by simp_all
    have "\<bar>(of_int n :: rat)\<bar> < 2 ^ 53"
      using assms by (metis of_int_abs of_int_less_numeral_power_cancel_iff)
    then have "\<bar>(of_int n :: rat) / 60\<bar> < 2 ^ 48" by (simp add: abs_divide)
    then obtain v where v: "round_double (of_int n / 60) = Fin v"
      and d: "\<bar>v - of_int n / 60\<bar> \<le> 1 / 64"
      using round_double_near by blast
    from d have "v - (of_int k + of_int r / 60) \<le> 1 / 64"
      "(of_int k + of_int r / 60) - v \<le> 1 / 64"
      unfolding x by (simp_all only: abs_le_iff minus_diff_eq)
    with rq have "of_int k \<le> v" "v < of_int k + 1" by linarith+
    then have "\<lfloor>v\<rfloor> = k" by (rule floor_unique)
    then show ?thesis by (simp add: v k_def)
  qed
qed

subsection \<open>Digits, \<open>Number\<close> and \<open>toMinutes\<close> on numeric parts\<close>

lemma is_digit_cases:
  "is_digit c \<longleftrightarrow> c \<in> {0x30, 0x31, 0x32, 0x33, 0x34, 0x35, 0x36, 0x37, 0x38, 0x39}"
  unfolding is_digit_def by (auto simp: word_le_nat_alt) (unat_arith)

lemma is_digit_not_ws: "is_digit c \<Longrightarrow> \<not> is_ws c"
  by (auto simp: is_digit_cases is_ws_def)

lemma is_digit_not_special:
  "is_digit c \<Longrightarrow> c \<noteq> 0x2B \<and> c \<noteq> 0x2D \<and> c \<noteq> 0x2E \<and> c \<noteq> 0x3A \<and> c \<noteq> 0x65 \<and> c \<noteq> 0x45 \<and> c \<noteq> 0x49"
  by (auto simp: is_digit_cases)

lemma digit_value_range: "is_digit c \<Longrightarrow> 0 \<le> digit_value c \<and> digit_value c \<le> 9"
  by (auto simp: is_digit_cases digit_value_def)

lemma digit_char_props:
  assumes "d \<le> 9"
  shows "is_digit (digit_char d)" "digit_value (digit_char d) = int d"
proof -
  have "d \<in> {0,1,2,3,4,5,6,7,8,9}" using assms by (simp add: numeral_eq_Suc) arith
  then show "is_digit (digit_char d)" "digit_value (digit_char d) = int d"
    by (auto simp: digit_char_def is_digit_def digit_value_def)
qed

lemma ten_split: "10 * int (k div 10) + int (k mod 10) = int k"
  by (simp add: zdiv_int zmod_int)

lemma Number_two_digits:
  assumes "is_digit a" "is_digit b"
  shows "Number [a, b] = Fin (of_int (10 * digit_value a + digit_value b))"
proof -
  have t: "trim [a, b] = [a, b]"
    using assms by (simp add: trim_def is_digit_not_ws)
  have nd: "non_decimal [a, b] = None"
    by (simp add: non_decimal_def)
  have inf: "[a, b] \<noteq> js ''Infinity''"
    by (simp add: js_def)
  have ud: "unsigned_decimal [a, b] = Some (10 * digit_value a + digit_value b, 0)"
    using assms by (simp add: unsigned_decimal_def exponent_part_def digits_value_def)
  have v: "\<bar>10 * digit_value a + digit_value b\<bar> < 2 ^ 53"
    using digit_value_range [OF assms(1)] digit_value_range [OF assms(2)] by simp
  have "str_unsigned_decimal [a, b] = Fin (of_int (10 * digit_value a + digit_value b))"
    using inf ud v by (simp add: str_unsigned_decimal_def decimal_value_def to_double_int)
  then show ?thesis
    using t nd is_digit_not_special [OF assms(1)] by (simp add: Number_def)
qed

lemma pad2_two_digits:
  assumes "n < 100"
  shows "pad2 (int n) = [digit_char (n div 10), digit_char (n mod 10)]"
proof (cases "n < 10")
  case True
  then show ?thesis
    by (simp add: pad2_def String_int_def padStart0_def digits_of.simps [of n] digit_char_def)
next
  case False
  then have "n div 10 < 10" using assms by simp
  then show ?thesis using False
    by (simp add: pad2_def String_int_def padStart0_def digits_of.simps [of n]
        digits_of.simps [of "n div 10"])
qed

lemma js_rem_int_nonneg:
  assumes "0 \<le> a" "0 < b"
  shows "js_rem (Fin (of_int a)) (Fin (of_int b)) = Fin (of_int (a mod b))"
proof -
  have "0 \<le> (of_int a :: rat) / of_int b" using assms by simp
  then have "trunc ((of_int a :: rat) / of_int b) = a div b"
    by (simp add: trunc_def floor_divide_of_int_eq)
  moreover have "a - b * (a div b) = a mod b"
    by (simp add: minus_mult_div_eq_mod)
  ultimately show ?thesis using assms
    by (simp flip: of_int_mult of_int_diff)
qed


lemma js_rem_int:
  assumes "0 < b"
  shows "js_rem (Fin (of_int a)) (Fin (of_int b)) = Fin (of_int (rem a b))"
proof (cases "0 \<le> a")
  case True
  then show ?thesis using assms by (simp only: js_rem_int_nonneg rem_def) (simp add: sgn_if)
next
  case False
  then have neg: "a < 0" by simp
  have "(of_int a :: rat) / of_int b = - (of_int (- a) / of_int b)" by simp
  have "\<not> 0 \<le> (of_int a :: rat) / of_int b"
    using divide_neg_pos [of "of_int a :: rat" "of_int b"] neg assms by simp
  then have "trunc ((of_int a :: rat) / of_int b) = \<lceil>(of_int a :: rat) / of_int b\<rceil>"
    by (simp add: trunc_def)
  also have "\<dots> = - \<lfloor>(of_int (- a) :: rat) / of_int b\<rfloor>"
    by (simp add: ceiling_def)
  also have "\<dots> = - ((- a) div b)"
    by (simp only: floor_divide_of_int_eq)
  finally have t: "trunc ((of_int a :: rat) / of_int b) = - ((- a) div b)" .
  have "b * ((- a) div b) + (- a) mod b = - a"
    by (rule mult_div_mod_eq)
  then have "a - b * (- ((- a) div b)) = - ((- a) mod b)"
    by linarith
  moreover have "rem a b = - ((- a) mod b)"
    using neg assms by (simp add: rem_def sgn_if)
  ultimately have "(of_int a :: rat) - of_int b * of_int (- ((- a) div b)) = of_int (rem a b)"
    by (metis of_int_diff of_int_mult)
  then show ?thesis using assms t by simp
qed

lemma rem_bound: "0 < b \<Longrightarrow> \<bar>rem a b\<bar> < b"
  by (simp add: rem_def sgn_if abs_mult)

lemma clamp_int:
  "clamp (Fin (of_int j)) (Fin 0) (Fin 59) = Fin (of_int (max 0 (min 59 j)))"
  by (simp add: clamp_def js_min_def js_max_def max_def min_def)

lemma toMinutes_parts:
  assumes "s \<noteq> []" "split 0x3A s = hs # ms # rest" "Number hs = Fin x" "Number ms = Fin y"
  shows "toMinutes (JStr s) = Fin (of_int (rem \<lfloor>x\<rfloor> 24 * 60 + max 0 (min 59 \<lfloor>y\<rfloor>)))"
proof -
  define r where "r = rem \<lfloor>x\<rfloor> 24"
  define c where "c = max 0 (min 59 \<lfloor>y\<rfloor>)"
  have r: "\<bar>r\<bar> < 24" unfolding r_def by (rule rem_bound) simp
  have c: "0 \<le> c" "c \<le> 59" by (simp_all add: c_def)
  have 1: "js_rem (js_floor (Fin x)) (Fin 24) = Fin (of_int r)"
    using js_rem_int [of 24 "\<lfloor>x\<rfloor>"] by (simp add: r_def)
  have "\<bar>r * 60\<bar> < 2 ^ 53" using r by simp
  then have "round_double (of_int (r * 60)) = Fin (of_int (r * 60))" by (rule round_double_int)
  then have 2: "js_mul (Fin (of_int r)) (Fin 60) = Fin (of_int (r * 60))" by simp
  have 3: "clamp (js_floor (Fin y)) (Fin 0) (Fin 59) = Fin (of_int c)"
    by (simp add: clamp_int c_def)
  have "\<bar>r * 60 + c\<bar> < 2 ^ 53" using r c by simp
  then have "round_double (of_int (r * 60 + c)) = Fin (of_int (r * 60 + c))"
    by (rule round_double_int)
  then have 4: "js_add (Fin (of_int (r * 60))) (Fin (of_int c)) = Fin (of_int (r * 60 + c))"
    by simp
  have "toMinutes (JStr s) =
          js_add (js_mul (js_rem (js_floor (Fin x)) (Fin 24)) (Fin 60))
                 (clamp (js_floor (Fin y)) (Fin 0) (Fin 59))"
    using assms
    by (simp add: toMinutes_def del: js_floor.simps js_rem.simps js_mul.simps js_add.simps)
  also have "\<dots> = Fin (of_int (r * 60 + c))"
    by (simp only: 1 2 3 4)
  finally show ?thesis by (simp only: r_def c_def)
qed

subsection \<open>\<open>fromMinutes\<close> followed by \<open>toMinutes\<close>\<close>

lemma double_mod: "safe n = n mod 1440"
proof (cases "0 \<le> n")
  case True
  then show ?thesis by (simp add: safe_def rem_def sgn_if)
next
  case False
  then have "rem n (24 * 60) = - ((- n) mod 1440)" by (simp add: rem_def sgn_if)
  moreover have "0 < - ((- n) mod 1440) + 1440"
    using pos_mod_bound [of 1440 "- n"] by simp
  ultimately show ?thesis
    using pos_mod_bound [of 1440 "- n"] pos_mod_sign [of 1440 "- n"] zmod_zminus1_eq_if [of n 1440]
    by (simp add: safe_def rem_def sgn_if split: if_splits)
qed

lemma fromMinutes_digits:
  "fromMinutes n =
     (let h = nat ((n mod 1440) div 60); m = nat ((n mod 1440) mod 60)
      in [digit_char (h div 10), digit_char (h mod 10), 0x3A,
          digit_char (m div 10), digit_char (m mod 10)])"
proof -
  define sf where "sf = n mod 1440"
  have s: "0 \<le> sf" "sf < 1440" by (simp_all add: sf_def)
  have h: "0 \<le> sf div 60" "sf div 60 < 100" using s by simp_all
  have m: "rem sf 60 = sf mod 60" using s by (simp add: rem_def sgn_if)
  have m2: "0 \<le> sf mod 60" "sf mod 60 < 100"
    using pos_mod_bound [of 60 sf] by simp_all
  have ph: "pad2 (sf div 60) =
      [digit_char (nat (sf div 60) div 10), digit_char (nat (sf div 60) mod 10)]"
    using pad2_two_digits [of "nat (sf div 60)"] h by simp
  have pm: "pad2 (sf mod 60) =
      [digit_char (nat (sf mod 60) div 10), digit_char (nat (sf mod 60) mod 10)]"
    using pad2_two_digits [of "nat (sf mod 60)"] m2 by simp
  have "fromMinutes n = pad2 (sf div 60) @ js '':'' @ pad2 (sf mod 60)"
    by (simp only: fromMinutes_def double_mod sf_def [symmetric] Let_def m)
  also have "js '':'' = [0x3A]" by (simp add: js_def)
  finally have "fromMinutes n = pad2 (sf div 60) @ [0x3A] @ pad2 (sf mod 60)" .
  then show ?thesis unfolding ph pm by (simp add: sf_def Let_def)
qed

lemma split_two_digits:
  assumes "is_digit a" "is_digit b" "is_digit c" "is_digit d"
  shows "split 0x3A [a, b, 0x3A, c, d] = [[a, b], [c, d]]"
proof -
  have "a \<noteq> 0x3A" "b \<noteq> 0x3A" "c \<noteq> 0x3A" "d \<noteq> 0x3A"
    using assms by (simp_all add: is_digit_not_special)
  then show ?thesis by simp
qed


lemma toMinutes_two_digits:
  assumes "is_digit a" "is_digit b" "is_digit c" "is_digit d"
  shows "toMinutes (JStr [a, b, 0x3A, c, d]) =
           Fin (of_int (((10 * digit_value a + digit_value b) mod 24) * 60
                        + min 59 (10 * digit_value c + digit_value d)))"
proof -
  define x where "x = 10 * digit_value a + digit_value b"
  define y where "y = 10 * digit_value c + digit_value d"
  have x: "0 \<le> x" unfolding x_def
    using digit_value_range [OF assms(1)] digit_value_range [OF assms(2)] by simp
  have y: "0 \<le> y" unfolding y_def
    using digit_value_range [OF assms(3)] digit_value_range [OF assms(4)] by simp
  have A: "toMinutes (JStr [a, b, 0x3A, c, d]) =
          Fin (of_int (rem \<lfloor>of_int x :: rat\<rfloor> 24 * 60 + max 0 (min 59 \<lfloor>of_int y :: rat\<rfloor>)))"
    unfolding x_def y_def
    by (rule toMinutes_parts [OF _ split_two_digits [OF assms]
          Number_two_digits [OF assms(1,2)] Number_two_digits [OF assms(3,4)]]) simp
  have B: "rem x 24 = x mod 24" using x by (simp add: rem_def sgn_if)
  have C: "max 0 (min 59 y) = min 59 y" using y by simp
  show ?thesis using B C unfolding A floor_of_int x_def y_def by (simp only:)
qed

lemma toMinutes_fromMinutes:
  "toMinutes (JStr (fromMinutes n)) = Fin (of_int (n mod 1440))"
proof -
  define h where "h = nat ((n mod 1440) div 60)"
  define m where "m = nat ((n mod 1440) mod 60)"
  have hb: "h < 24" unfolding h_def 
    using pos_mod_bound [of 1440 n] by (simp add: nat_less_iff)
  have mb: "m < 60" unfolding m_def
    using pos_mod_bound [of 60 "n mod 1440"] by (simp add: nat_less_iff)
  have d: "h div 10 \<le> 9" "h mod 10 \<le> 9" "m div 10 \<le> 9" "m mod 10 \<le> 9"
    using hb mb by simp_all
  have f: "fromMinutes n = [digit_char (h div 10), digit_char (h mod 10), 0x3A,
          digit_char (m div 10), digit_char (m mod 10)]"
    by (simp add: fromMinutes_digits h_def m_def Let_def)
  have "toMinutes (JStr (fromMinutes n)) =
      Fin (of_int (((10 * int (h div 10) + int (h mod 10)) mod 24) * 60
                        + min 59 (10 * int (m div 10) + int (m mod 10))))"
    unfolding f
    using toMinutes_two_digits [OF digit_char_props(1) [OF d(1)] digit_char_props(1) [OF d(2)]
        digit_char_props(1) [OF d(3)] digit_char_props(1) [OF d(4)]]
    by (simp only: digit_char_props(2) [OF d(1)] digit_char_props(2) [OF d(2)]
        digit_char_props(2) [OF d(3)] digit_char_props(2) [OF d(4)])
  moreover have "10 * int (h div 10) + int (h mod 10) = int h" by (rule ten_split)
  moreover have "10 * int (m div 10) + int (m mod 10) = int m" by (rule ten_split)
  moreover have "int h mod 24 = int h" using hb by simp
  moreover have "min 59 (int m) = int m" using mb by simp
  moreover have "int h * 60 + int m = n mod 1440"
    unfolding h_def m_def by simp
  ultimately show ?thesis by simp
qed

lemma digit_char_digit_value: "is_digit a \<Longrightarrow> digit_char (nat (digit_value a)) = a"
  by (auto simp: is_digit_cases digit_value_def digit_char_def)

lemma well_formed_fix:
  assumes "well_formed x"
  shows "\<exists>n. 0 \<le> n \<and> n < 1440 \<and> toMinutes (JStr x) = Fin (of_int n) \<and> fromMinutes n = x"
proof -
  from assms obtain a b c d where x: "x = [a, b, 0x3A, c, d]"
    and dg: "is_digit a" "is_digit b" "is_digit c" "is_digit d"
    and hb: "10 * digit_value a + digit_value b < 24"
    and mb: "10 * digit_value c + digit_value d < 60"
    by (auto simp: well_formed_def split: list.splits)
  define h where "h = 10 * digit_value a + digit_value b"
  define m where "m = 10 * digit_value c + digit_value d"
  note r = digit_value_range [OF dg(1)] digit_value_range [OF dg(2)]
    digit_value_range [OF dg(3)] digit_value_range [OF dg(4)]
  have h: "0 \<le> h" "h < 24" using r hb by (simp_all add: h_def)
  have m: "0 \<le> m" "m < 60" using r mb by (simp_all add: m_def)
  have t: "toMinutes (JStr x) = Fin (of_int (h * 60 + m))"
    using h m unfolding x toMinutes_two_digits [OF dg] h_def [symmetric] m_def [symmetric]
    by simp
  have n: "(h * 60 + m) mod 1440 = h * 60 + m" using h m by simp
  have hd: "(h * 60 + m) div 60 = h" using h m by simp
  have md: "(h * 60 + m) mod 60 = m" using h m by simp
  have "nat (digit_value b) < 10" "nat (digit_value d) < 10" using r by auto
  then have "nat h div 10 = nat (digit_value a)" "nat h mod 10 = nat (digit_value b)"
    "nat m div 10 = nat (digit_value c)" "nat m mod 10 = nat (digit_value d)"
    using r unfolding h_def m_def by (simp_all add: nat_add_distrib nat_mult_distrib)
  then have "fromMinutes (h * 60 + m) = x"
    unfolding fromMinutes_digits n hd md Let_def x
    by (simp add: digit_char_digit_value dg)
  then show ?thesis using t h m by (intro exI [of _ "h * 60 + m"]) simp
qed

lemma fromMinutes_toMinutes_fromMinutes:
  "fromMinutes_toMinutes (fromMinutes n) = Some (fromMinutes n)"
proof -
  have "safe (n mod 1440) = safe n" by (simp add: double_mod)
  then have "fromMinutes (n mod 1440) = fromMinutes n" by (simp add: fromMinutes_def)
  then show ?thesis
    by (simp add: fromMinutes_toMinutes_def toMinutes_fromMinutes)
qed

lemma well_formed_0930: "well_formed (js ''09:30'')"
  by (simp add: well_formed_def js_def is_digit_def digit_value_def)

subsection \<open>\<open>String\<close> of a number that is a small integer\<close>

text \<open>
  At an integer of at most two digits \<open>Number_toString\<close> gives the decimal digits that
  \<open>String_int\<close> gives, so the two \<open>pad2\<close> agree there.
\<close>

lemma candidate_lo:
  assumes "round_double (scale10 (of_int \<lfloor>scale10 x (int k - n)\<rfloor>) (n - int k)) = Fin x"
    and "round_double (scale10 (of_int (\<lfloor>scale10 x (int k - n)\<rfloor> + 1)) (n - int k)) \<noteq> Fin x"
  shows "candidate x n k = Some \<lfloor>scale10 x (int k - n)\<rfloor>"
  using assms by (simp add: candidate_def Let_def)

lemma candidate_none:
  assumes "round_double (scale10 (of_int \<lfloor>scale10 x (int k - n)\<rfloor>) (n - int k)) \<noteq> Fin x"
    and "round_double (scale10 (of_int (\<lfloor>scale10 x (int k - n)\<rfloor> + 1)) (n - int k)) \<noteq> Fin x"
  shows "candidate x n k = None"
  using assms by (simp add: candidate_def Let_def)

lemma candidate_same:
  assumes "0 < i" "i + 1 < 2 ^ 53"
  shows "candidate (of_int i) (int k) k = Some i"
proof -
  have s: "scale10 y (int k - int k) = y" for y by (simp add: scale10_def)
  have a: "round_double (of_int i) = Fin (of_int i)"
    using assms by (intro round_double_int) simp
  have "round_double (of_int (i + 1)) = Fin (of_int (i + 1))"
    using assms by (intro round_double_int) simp
  then have b: "round_double (of_int (i + 1)) \<noteq> Fin (of_int i)"
    by (simp del: of_int_add)
  have "candidate (of_int i) (int k) k = Some \<lfloor>scale10 (of_int i :: rat) (int k - int k)\<rfloor>"
    using a b by (intro candidate_lo; simp only: s floor_of_int; simp)
  then show ?thesis by (simp only: s floor_of_int)
qed

lemma candidate_tens:
  assumes "0 < i" "i + 10 < 2 ^ 53"
  shows "candidate (of_int i) (int k + 1) k = (if i mod 10 = 0 then Some (i div 10) else None)"
proof -
  define lo where "lo = i div 10"
  have s1: "scale10 y (int k - (int k + 1)) = y / 10" for y by (simp add: scale10_def)
  have s2: "scale10 y (int k + 1 - int k) = y * 10" for y by (simp add: scale10_def)
  have fl: "\<lfloor>(of_int i :: rat) / 10\<rfloor> = lo"
    using floor_divide_of_int_eq [of i 10, where ?'a = rat] by (simp add: lo_def)
  have lo: "0 \<le> lo" "lo * 10 \<le> i" "i < (lo + 1) * 10" using assms by (simp_all add: lo_def)
  have "\<bar>lo * 10\<bar> < 2 ^ 53" using lo assms by simp
  then have "round_double (of_int (lo * 10)) = Fin (of_int (lo * 10))" by (rule round_double_int)
  then have a: "round_double (of_int lo * 10) = Fin (of_int (lo * 10))" by simp
  have "(lo + 1) * 10 \<le> i + 10" using lo by simp
  then have "\<bar>(lo + 1) * 10\<bar> < 2 ^ 53" using lo assms by simp
  then have "round_double (of_int ((lo + 1) * 10)) = Fin (of_int ((lo + 1) * 10))"
    by (rule round_double_int)
  then have b: "round_double (of_int (lo + 1) * 10) = Fin (of_int ((lo + 1) * 10))" by simp
  have nb: "round_double (of_int (lo + 1) * 10) \<noteq> Fin (of_int i)"
    unfolding b using lo by (simp del: of_int_add of_int_mult)
  show ?thesis
  proof (cases "i mod 10 = 0")
    case True
    then have "lo * 10 = i" unfolding lo_def by presburger
    then have "round_double (of_int lo * 10) = Fin (of_int i)" unfolding a by simp
    then have "candidate (of_int i) (int k + 1) k
        = Some \<lfloor>scale10 (of_int i :: rat) (int k - (int k + 1))\<rfloor>"
      using nb by (intro candidate_lo; simp only: s1 s2 fl; simp)
    then have "candidate (of_int i) (int k + 1) k = Some lo" by (simp only: s1 fl)
    then show ?thesis using True by (simp add: lo_def)
  next
    case False
    then have "lo * 10 \<noteq> i" unfolding lo_def by presburger
    then have "round_double (of_int lo * 10) \<noteq> Fin (of_int i)"
      unfolding a by (simp del: of_int_mult)
    then have "candidate (of_int i) (int k + 1) k = None"
      using nb by (intro candidate_none; simp only: s1 s2 fl; simp)
    then show ?thesis using False by simp
  qed
qed


lemma digits_of_small: "n < 10 \<Longrightarrow> digits_of n = [digit_char n]"
  by (simp add: digits_of.simps)

lemma digits_of_two:
  "10 \<le> n \<Longrightarrow> n < 100 \<Longrightarrow> digits_of n = [digit_char (n div 10), digit_char (n mod 10)]"
  using digits_of.simps [of n] by (simp add: digits_of_small)

lemma Number_toString_pos_one:
  assumes "1 \<le> i" "i \<le> 9"
  shows "Number_toString_pos (of_int i) = digits_of (nat i)"
proof -
  have d: "digits_of (nat i) = [digit_char (nat i)]" using assms by (simp add: digits_of_small)
  have e: "decimal_exponent (of_int i) = 1"
    using assms by (simp add: decimal_exponent_def d)
  have c: "candidate (of_int i) 1 (Suc 0) = Some i"
    using candidate_same [of i 1] assms by simp
  show ?thesis
    using assms by (simp add: Number_toString_pos_def e c d)
qed

lemma Number_toString_pos_two:
  assumes "10 \<le> i" "i \<le> 99"
  shows "Number_toString_pos (of_int i) = digits_of (nat i)"
proof -
  have d: "digits_of (nat i) = [digit_char (nat i div 10), digit_char (nat i mod 10)]"
    using assms by (simp add: digits_of_two)
  have e: "decimal_exponent (of_int i) = 2"
    using assms by (simp add: decimal_exponent_def d)
  have c1: "candidate (of_int i) 2 (Suc 0) = (if i mod 10 = 0 then Some (i div 10) else None)"
    using candidate_tens [of i 1] assms by simp
  have c2: "candidate (of_int i) 2 2 = Some i"
    using candidate_same [of i 2] assms by simp
  show ?thesis
  proof (cases "i mod 10 = 0")
    case True
    have q: "1 \<le> i div 10" "i div 10 \<le> 9" using assms by simp_all
    then have dq: "digits_of (nat (i div 10)) = [digit_char (nat (i div 10))]"
      by (simp add: digits_of_small)
    have "nat (i mod 10) = nat i mod nat 10"
      using assms by (intro nat_mod_distrib) simp_all
    moreover have "nat (i div 10) = nat i div nat 10"
      using assms by (intro nat_div_distrib) simp
    ultimately have "nat i mod 10 = 0" "nat i div 10 = nat (i div 10)"
      using True by simp_all
    then show ?thesis
      using True q by (simp add: Number_toString_pos_def e c1 d dq digit_char_def)
  next
    case False
    then show ?thesis
      using assms by (simp add: Number_toString_pos_def e c1 c2 d)
  qed
qed

lemma Number_toString_int:
  assumes "\<bar>i\<bar> \<le> 99"
  shows "Number_toString (Fin (of_int i)) = String_int i"
proof -
  have p: "Number_toString_pos (of_int j) = digits_of (nat j)" if "1 \<le> j" "j \<le> 99" for j
    using that Number_toString_pos_one [of j] Number_toString_pos_two [of j] by linarith
  consider "i = 0" | "1 \<le> i" | "i \<le> - 1" by linarith
  then show ?thesis
  proof cases
    case 1
    then show ?thesis by (simp add: String_int_def digits_of_small digit_char_def js_def)
  next
    case 2
    then show ?thesis using assms p [of i] by (simp add: String_int_def)
  next
    case 3
    then have "Number_toString_pos (of_int (- i)) = digits_of (nat (- i))"
      using assms p [of "- i"] by simp
    then show ?thesis using 3 by (simp add: String_int_def js_def)
  qed
qed

lemma pad2_app_int: "\<bar>i\<bar> \<le> 99 \<Longrightarrow> pad2_app (Fin (of_int i)) = pad2 i"
  by (simp only: pad2_app_def pad2_def Number_toString_int)

section \<open>Claims about the time codec\<close>

text \<open>
  C1. Round trip of the time codec: for every hour \<open>h\<close> in \<open>[0, 23]\<close> and minute \<open>m\<close> in
  \<open>[0, 59]\<close>, \<open>toMinutes (fromMinutes (h * 60 + m))\<close> is \<open>h * 60 + m\<close>; and
  \<open>fromMinutes \<circ> toMinutes\<close> is idempotent on every well-formed \<open>HH:MM\<close> string: it
  returns a string, and returns that same string when applied to it again (as it does on
  any string for which \<open>toMinutes\<close> gives a number).
\<close>

theorem time_codec_round_trip:
  "(\<forall>h m. 0 \<le> h \<and> h \<le> 23 \<and> 0 \<le> m \<and> m \<le> 59 \<longrightarrow>
      toMinutes (JStr (fromMinutes (h * 60 + m))) = Fin (of_int (h * 60 + m)))
   \<and> (\<forall>x. well_formed x \<longrightarrow>
        (\<exists>y. fromMinutes_toMinutes x = Some y \<and> fromMinutes_toMinutes y = Some y))
   \<and> (\<forall>x y. fromMinutes_toMinutes x = Some y \<longrightarrow> fromMinutes_toMinutes y = Some y)"
proof (intro conjI allI impI)
  fix h m :: int
  assume "0 \<le> h \<and> h \<le> 23 \<and> 0 \<le> m \<and> m \<le> 59"
  then have "(h * 60 + m) mod 1440 = h * 60 + m" by simp
  then show "toMinutes (JStr (fromMinutes (h * 60 + m))) = Fin (of_int (h * 60 + m))"
    by (simp add: toMinutes_fromMinutes)
next
  fix x
  assume "well_formed x"
  then obtain n where "toMinutes (JStr x) = Fin (of_int n)" "fromMinutes n = x"
    using well_formed_fix by blast
  then have "fromMinutes_toMinutes x = Some x"
    by (simp add: fromMinutes_toMinutes_def)
  then show "\<exists>y. fromMinutes_toMinutes x = Some y \<and> fromMinutes_toMinutes y = Some y"
    by simp
next
  fix x y
  assume "fromMinutes_toMinutes x = Some y"
  then obtain n where "y = fromMinutes n"
    by (auto simp: fromMinutes_toMinutes_def split: jsnum.splits if_splits)
  then show "fromMinutes_toMinutes y = Some y"
    by (simp add: fromMinutes_toMinutes_fromMinutes)
qed

theorem time_codec_round_trip_witness:
  "(0 \<le> (9::int) \<and> (9::int) \<le> 23 \<and> 0 \<le> (30::int) \<and> (30::int) \<le> 59)
   \<and> toMinutes (JStr (fromMinutes (9 * 60 + 30))) = Fin (of_int (9 * 60 + 30))
   \<and> well_formed (js ''09:30'')
   \<and> (\<exists>y. fromMinutes_toMinutes (js ''09:30'') = Some y \<and> fromMinutes_toMinutes y = Some y)"
proof -
  note T = time_codec_round_trip
  have h: "0 \<le> (9::int) \<and> (9::int) \<le> 23 \<and> 0 \<le> (30::int) \<and> (30::int) \<le> 59" by simp
  with T have 1: "toMinutes (JStr (fromMinutes (9 * 60 + 30))) = Fin (of_int (9 * 60 + 30))"
    by blast
  from T well_formed_0930
  have 2: "\<exists>y. fromMinutes_toMinutes (js ''09:30'') = Some y \<and> fromMinutes_toMinutes y = Some y"
    by blast
  from h 1 well_formed_0930 2 show ?thesis by blast
qed


lemma split_not_Nil: "split sep s \<noteq> []"
  by (induction s) (auto split: list.splits)




lemma rem_nonneg: "0 \<le> a \<Longrightarrow> rem a b = a mod \<bar>b\<bar>"
  by (simp add: rem_def sgn_if)









lemma fromMinutes_minus_30: "fromMinutes (- 30) = js ''23:30''"
  by (simp add: fromMinutes_digits Let_def digit_char_def js_def)

text \<open>
  C3. \<open>fromMinutes\<close> normalizes any integer minute value, negative ones included, into
  \<open>[0, 1440)\<close> by the double remainder \<open>safe\<close>, which is the value modulo 1440, and renders
  two zero-padded digits for the hour, a colon and two for the minute; \<open>fromMinutes (-30)\<close>
  is \<open>23:30\<close>.
\<close>

theorem fromMinutes_normalizes:
  "0 \<le> safe n \<and> safe n < 1440 \<and> safe n = n mod 1440
   \<and> fromMinutes n =
        [digit_char (nat (safe n div 60) div 10), digit_char (nat (safe n div 60) mod 10), 0x3A,
         digit_char (nat (safe n mod 60) div 10), digit_char (nat (safe n mod 60) mod 10)]
   \<and> nat (safe n div 60) < 24 \<and> nat (safe n mod 60) < 60
   \<and> fromMinutes (- 30) = js ''23:30''"
proof -
  have s: "safe n = n mod 1440" by (rule double_mod)
  have b: "0 \<le> n mod 1440" "n mod 1440 < 1440" by simp_all
  have h: "nat (n mod 1440 div 60) < 24" using b by (simp add: nat_less_iff)
  have m: "nat (n mod 1440 mod 60) < 60"
    using pos_mod_bound [of 60 "n mod 1440"] by (simp add: nat_less_iff)
  have f: "fromMinutes n =
        [digit_char (nat (n mod 1440 div 60) div 10), digit_char (nat (n mod 1440 div 60) mod 10),
         0x3A,
         digit_char (nat (n mod 1440 mod 60) div 10), digit_char (nat (n mod 1440 mod 60) mod 10)]"
    by (simp add: fromMinutes_digits Let_def)
  note e = fromMinutes_minus_30
  show ?thesis unfolding s by (intro conjI b h m f e refl)
qed

theorem fromMinutes_normalizes_witness:
  "safe (- 30) = 1410 \<and> fromMinutes (- 30) = js ''23:30''"
proof -
  note T = fromMinutes_normalizes [of "- 30"]
  have "safe (- 30) = - 30 mod 1440"
    by (rule T [THEN conjunct2, THEN conjunct2, THEN conjunct1])
  moreover have "fromMinutes (- 30) = js ''23:30''"
    by (rule T [THEN conjunct2, THEN conjunct2, THEN conjunct2, THEN conjunct2, THEN conjunct2,
          THEN conjunct2])
  ultimately show ?thesis by simp
qed

text \<open>
  The older \<open>fromMinutes\<close> of src/app.jsx at an integer of magnitude below \<open>2 ^ 53\<close>; it keeps
  the sign of a negative argument.
\<close>

lemma fromMinutes_app_int:
  assumes "\<bar>n\<bar> < 2 ^ 53"
  shows "fromMinutes_app (Fin (of_int n)) = pad2 (rem (n div 60) 24) @ js '':'' @ pad2 (rem n 60)"
proof -
  have "js_rem (Fin (of_int (n div 60))) (Fin (of_int 24)) = Fin (of_int (rem (n div 60) 24))"
    by (rule js_rem_int) simp
  then have h: "js_rem (js_floor (js_div (Fin (of_int n)) (Fin 60))) (Fin 24)
      = Fin (of_int (rem (n div 60) 24))"
    by (simp only: js_div_60_floor [OF assms] of_int_numeral)
  have "js_rem (Fin (of_int n)) (Fin (of_int 60)) = Fin (of_int (rem n 60))"
    by (rule js_rem_int) simp
  then have m: "js_rem (Fin (of_int n)) (Fin 60) = Fin (of_int (rem n 60))"
    by (simp only: of_int_numeral)
  have "\<bar>rem (n div 60) 24\<bar> < 24" "\<bar>rem n 60\<bar> < 60" by (simp_all add: rem_bound)
  then have p: "pad2_app (Fin (of_int (rem (n div 60) 24))) = pad2 (rem (n div 60) 24)"
    "pad2_app (Fin (of_int (rem n 60))) = pad2 (rem n 60)"
    by (simp_all add: pad2_app_int)
  show ?thesis
    unfolding fromMinutes_app_def Let_def h m p ..
qed

lemma fromMinutes_app_negative: "fromMinutes_app (Fin (- 30)) = js ''-1:-30''"
  using fromMinutes_app_int [of "- 30"]
  by (simp add: rem_def pad2_def String_int_def padStart0_def digits_of.simps digit_char_def
      js_def)

lemma toMinutes_app_two_digits:
  assumes "is_digit a" "is_digit b" "is_digit c" "is_digit d"
  shows "toMinutes_app (JStr [a, b, 0x3A, c, d]) =
           Inr (Fin (of_int ((10 * digit_value a + digit_value b) * 60
                        + (10 * digit_value c + digit_value d))))"
proof -
  define x where "x = 10 * digit_value a + digit_value b"
  define y where "y = 10 * digit_value c + digit_value d"
  note r = digit_value_range [OF assms(1)] digit_value_range [OF assms(2)]
    digit_value_range [OF assms(3)] digit_value_range [OF assms(4)]
  have x: "0 \<le> x" "x < 100" using r by (simp_all add: x_def)
  have y: "0 \<le> y" "y < 100" using r by (simp_all add: y_def)
  have "\<bar>x * 60\<bar> < 2 ^ 53" using x by simp
  then have "round_double (of_int (x * 60)) = Fin (of_int (x * 60))" by (rule round_double_int)
  then have 1: "js_mul (Fin (of_int x)) (Fin 60) = Fin (of_int (x * 60))" by simp
  have "\<bar>x * 60 + y\<bar> < 2 ^ 53" using x y by simp
  then have "round_double (of_int (x * 60 + y)) = Fin (of_int (x * 60 + y))"
    by (rule round_double_int)
  then have 2: "js_add (Fin (of_int (x * 60))) (Fin (of_int y)) = Fin (of_int (x * 60 + y))"
    by simp
  have "toMinutes_app (JStr [a, b, 0x3A, c, d]) =
          Inr (js_add (js_mul (Fin (of_int x)) (Fin 60)) (Fin (of_int y)))"
    unfolding x_def y_def
    by (simp add: toMinutes_app_def split_two_digits [OF assms]
        Number_two_digits [OF assms(1,2)] Number_two_digits [OF assms(3,4)]
        del: split.simps js_mul.simps js_add.simps)
  then have "toMinutes_app (JStr [a, b, 0x3A, c, d]) = Inr (Fin (of_int (x * 60 + y)))"
    by (simp only: 1 2)
  then show ?thesis by (simp only: x_def y_def)
qed

lemma fromMinutes_app_nonneg:
  assumes "0 \<le> n" "n < 2 ^ 53"
  shows "fromMinutes_app (Fin (of_int n)) = fromMinutes n"
proof -
  have a: "\<bar>n\<bar> < 2 ^ 53" using assms by simp
  have d: "0 \<le> n div 60" using assms by simp
  have e: "n mod 1440 = 60 * (n div 60 mod 24) + n mod 60"
    using zmod_zmult2_eq [of 24 n 60] by simp
  have r: "0 \<le> n mod 60" "n mod 60 < 60" by simp_all
  have q: "n mod 1440 div 60 = n div 60 mod 24" unfolding e using r by simp
  have 1: "rem (n div 60) 24 = n mod 1440 div 60"
    using rem_nonneg [OF d, of 24] q by simp
  have 2: "rem n 60 = n mod 60" using rem_nonneg [OF assms(1), of 60] by simp
  have "n mod 1440 mod 60 = n mod 60" unfolding e using r by simp
  then have 3: "rem (n mod 1440) 60 = n mod 60"
    using rem_nonneg [of "n mod 1440" 60] by simp
  show ?thesis
    by (simp add: fromMinutes_app_int [OF a] fromMinutes_def double_mod Let_def 1 2 3)
qed

lemma well_formed_2359: "well_formed (js ''23:59'')"
  by (simp add: well_formed_def js_def is_digit_def digit_value_def)

text \<open>
  C10. The two time codecs agree on well-formed input: \<open>toMinutes\<close> of src/app.jsx returns
  what \<open>toMinutes\<close> of src/src/App.jsx returns on every well-formed \<open>HH:MM\<close> string, and the
  two \<open>fromMinutes\<close> agree on every integer minute value in \<open>[0, 1440)\<close>, indeed on every
  non-negative integer below \<open>2 ^ 53\<close>. So the two \<open>toMinutes\<close> differ only on strings that
  are not well-formed, and on integers of magnitude below \<open>2 ^ 53\<close> the two \<open>fromMinutes\<close>
  differ only on negative ones.
\<close>

theorem time_codecs_agree:
  "(\<forall>x. well_formed x \<longrightarrow> toMinutes_app (JStr x) = Inr (toMinutes (JStr x)))
   \<and> (\<forall>n. 0 \<le> n \<and> n < 1440 \<longrightarrow> fromMinutes_app (Fin (of_int n)) = fromMinutes n)
   \<and> (\<forall>n. 0 \<le> n \<and> n < 2 ^ 53 \<longrightarrow> fromMinutes_app (Fin (of_int n)) = fromMinutes n)
   \<and> (\<forall>v. toMinutes_app v \<noteq> Inr (toMinutes v) \<longrightarrow> (\<forall>x. v = JStr x \<longrightarrow> \<not> well_formed x))
   \<and> (\<forall>n. \<bar>n\<bar> < 2 ^ 53 \<and> fromMinutes_app (Fin (of_int n)) \<noteq> fromMinutes n \<longrightarrow> n < 0)"
proof -
  have A: "toMinutes_app (JStr x) = Inr (toMinutes (JStr x))" if "well_formed x" for x
  proof -
    from that obtain a b c d where x: "x = [a, b, 0x3A, c, d]"
      and dg: "is_digit a" "is_digit b" "is_digit c" "is_digit d"
      and hb: "10 * digit_value a + digit_value b < 24"
      and mb: "10 * digit_value c + digit_value d < 60"
      by (auto simp: well_formed_def split: list.splits)
    note r = digit_value_range [OF dg(1)] digit_value_range [OF dg(2)]
      digit_value_range [OF dg(3)] digit_value_range [OF dg(4)]
    have "(10 * digit_value a + digit_value b) mod 24 = 10 * digit_value a + digit_value b"
      using r hb by simp
    moreover have "min 59 (10 * digit_value c + digit_value d) = 10 * digit_value c + digit_value d"
      using mb by simp
    ultimately show ?thesis
      unfolding x toMinutes_app_two_digits [OF dg] toMinutes_two_digits [OF dg] by simp
  qed
  have B: "fromMinutes_app (Fin (of_int n)) = fromMinutes n" if "0 \<le> n \<and> n < 2 ^ 53" for n
    using that fromMinutes_app_nonneg by blast
  have B': "fromMinutes_app (Fin (of_int n)) = fromMinutes n" if "0 \<le> n \<and> n < 1440" for n
  proof -
    have "(1440 :: int) < 2 ^ 53" by simp
    with that have "0 \<le> n \<and> n < 2 ^ 53" by linarith
    then show ?thesis by (rule B)
  qed
  have C: "n < 0" if "\<bar>n\<bar> < 2 ^ 53 \<and> fromMinutes_app (Fin (of_int n)) \<noteq> fromMinutes n" for n
  proof (rule ccontr)
    assume "\<not> n < 0"
    with that have "0 \<le> n \<and> n < 2 ^ 53" by simp
    then show False using B that by blast
  qed
  show ?thesis using A B B' C by blast
qed

theorem time_codecs_agree_witness:
  "well_formed (js ''23:59'')
   \<and> toMinutes_app (JStr (js ''23:59'')) = Inr (toMinutes (JStr (js ''23:59'')))
   \<and> (0 \<le> (1439::int) \<and> (1439::int) < 1440)
   \<and> fromMinutes_app (Fin (of_int 1439)) = fromMinutes 1439
   \<and> fromMinutes_app (Fin (- 30)) \<noteq> fromMinutes (- 30) \<and> (- 30 :: int) < 0"
proof -
  note T = time_codecs_agree
  from T well_formed_2359
  have 1: "toMinutes_app (JStr (js ''23:59'')) = Inr (toMinutes (JStr (js ''23:59'')))"
    by blast
  have h: "0 \<le> (1439::int) \<and> (1439::int) < 1440" by simp
  with T have 2: "fromMinutes_app (Fin (of_int 1439)) = fromMinutes 1439" by blast
  have 3: "fromMinutes_app (Fin (- 30)) \<noteq> fromMinutes (- 30)"
    by (simp add: fromMinutes_app_negative fromMinutes_minus_30 js_def)
  from well_formed_2359 1 h 2 3 show ?thesis by simp
qed

text \<open>
  Outside those integers the older \<open>fromMinutes\<close> goes its own way. The quotient
  \<open>10 ^ 21 / 60\<close> rounds to a multiple of 24, so its hour at \<open>10 ^ 21\<close> is \<open>00\<close> where
  src/src/App.jsx, which takes the remainder first, has \<open>10\<close>; and it prints the fraction of
  a minute value that is not an integer.
\<close>

lemma round_double_quotient:
  assumes "0 < b" "coprime a b"
  shows "round_double (of_int a / of_int b) = to_double a b"
proof -
  have "quotient_of (Fract a b) = (a, b)"
    using assms by (simp add: quotient_of_Fract)
  then show ?thesis by (simp add: round_double_def Fract_of_int_quotient)
qed

lemma bitlen_examples: "bitlen 50000000000000000000 = 66" "bitlen 3 = 2"
  using bitlen_twopow_add_eq [of 13106511852580896768 65] bitlen_twopow_add_eq [of 1 1]
  by simp_all

lemma js_div_1e21:
  "js_div (Fin 1000000000000000000000) (Fin 60) = Fin 16666666666666665984"
proof -
  have "(1000000000000000000000 :: rat) / 60 = of_int 50000000000000000000 / of_int 3" by simp
  moreover have "coprime (50000000000000000000 :: int) 3"
    by (simp add: coprime_iff_gcd_eq_1 gcd_red_int [of 50000000000000000000 3]
        gcd_red_int [of 3 2])
  ultimately have "round_double (1000000000000000000000 / 60)
      = to_double 50000000000000000000 3"
    using round_double_quotient [of 3 50000000000000000000] by simp
  also have "\<dots> = Fin 16666666666666665984"
    by (simp add: to_double_def round_binary64_def binade_def bitlen_examples
        round_half_even_div_def Let_def)
  finally show ?thesis by simp
qed

lemma fromMinutes_app_1e21:
  "fromMinutes_app (Fin 1000000000000000000000) = js ''00:40''"
proof -
  have f: "js_floor (js_div (Fin 1000000000000000000000) (Fin 60))
      = Fin (of_int 16666666666666665984)"
    unfolding js_div_1e21 by simp
  have "js_rem (Fin (of_int 16666666666666665984)) (Fin (of_int 24))
      = Fin (of_int (rem 16666666666666665984 24))"
    by (rule js_rem_int) simp
  then have h: "js_rem (js_floor (js_div (Fin 1000000000000000000000) (Fin 60))) (Fin 24)
      = Fin (of_int 0)"
    unfolding f by (simp add: rem_def del: js_rem.simps)
  have "js_rem (Fin (of_int 1000000000000000000000)) (Fin (of_int 60))
      = Fin (of_int (rem 1000000000000000000000 60))"
    by (rule js_rem_int) simp
  then have m: "js_rem (Fin 1000000000000000000000) (Fin 60) = Fin (of_int 40)"
    by (simp add: rem_def del: js_rem.simps)
  have p: "pad2_app (Fin (of_int 0)) = pad2 0" "pad2_app (Fin (of_int 40)) = pad2 40"
    by (simp_all only: pad2_app_int)
  show ?thesis
    unfolding fromMinutes_app_def Let_def h m p
    by (simp add: pad2_def String_int_def padStart0_def digits_of.simps digit_char_def js_def)
qed

lemma fromMinutes_1e21: "fromMinutes 1000000000000000000000 = js ''10:40''"
  by (simp add: fromMinutes_digits Let_def digit_char_def js_def)

lemma floor_numeral_div: "\<lfloor>(numeral a :: rat) / numeral b\<rfloor> = numeral a div numeral b"
  using floor_divide_of_int_eq [of "numeral a" "numeral b", where ?'a = rat] by simp

lemma round_double_numeral:
  "(numeral w :: int) < 2 ^ 53 \<Longrightarrow> round_double (numeral w) = Fin (numeral w)"
  using round_double_int [of "numeral w"] by simp

lemma round_double_half: "round_double (61 / 2) = Fin (61 / 2)"
proof -
  have b: "bitlen 61 = 6" "bitlen 2 = 2"
    using bitlen_twopow_add_eq [of 29 5] bitlen_twopow_add_eq [of 0 1] by simp_all
  have "round_double (of_int 61 / of_int 2) = to_double 61 2"
    by (rule round_double_quotient) simp_all
  also have "\<dots> = Fin (61 / 2)"
    by (simp add: to_double_def round_binary64_def binade_def b round_half_even_div_def Let_def)
  finally show ?thesis by simp
qed

lemma round_double_above: "round_double (153 / 5) \<noteq> Fin (61 / 2)"
proof -
  have "\<bar>(153 :: rat) / 5\<bar> < 2 ^ 48" by simp
  then obtain v where v: "round_double (153 / 5) = Fin v" and d: "\<bar>v - 153 / 5\<bar> \<le> 1 / 64"
    using round_double_near by blast
  from d have "153 / 5 - v \<le> 1 / 64" by (simp only: abs_le_iff minus_diff_eq)
  then have "v \<noteq> 61 / 2" by linarith
  then show ?thesis by (simp add: v)
qed

lemma Number_toString_pos_half: "Number_toString_pos (61 / 2) = js ''30.5''"
proof -
  have e: "decimal_exponent (61 / 2) = 2"
    by (simp add: decimal_exponent_def floor_numeral_div digits_of.simps)
  have c1: "candidate (61 / 2) 2 (Suc 0) = None"
    by (rule candidate_none)
      (simp_all add: scale10_def floor_numeral_div round_double_numeral)
  have c2: "candidate (61 / 2) 2 2 = None"
    by (rule candidate_none)
      (simp_all add: scale10_def floor_numeral_div round_double_numeral)
  have "candidate (61 / 2) 2 3 = Some \<lfloor>scale10 (61 / 2) (int 3 - 2)\<rfloor>"
    by (rule candidate_lo)
      (simp_all add: scale10_def round_double_half round_double_above)
  then have c3: "candidate (61 / 2) 2 3 = Some 305" by (simp add: scale10_def)
  show ?thesis
    by (simp add: Number_toString_pos_def e c1 c2 c3 digits_of.simps digit_char_def js_def)
qed

lemma fromMinutes_app_fraction: "fromMinutes_app (Fin (181 / 2)) = js ''01:30.5''"
proof -
  have "\<bar>(181 :: rat) / 2 / 60\<bar> < 2 ^ 48" by simp
  then obtain v where v: "round_double (181 / 2 / 60) = Fin v"
    and d: "\<bar>v - 181 / 2 / 60\<bar> \<le> 1 / 64"
    using round_double_near by blast
  from d have "v - 181 / 2 / 60 \<le> 1 / 64" "181 / 2 / 60 - v \<le> 1 / 64"
    by (simp_all only: abs_le_iff minus_diff_eq)
  then have "of_int 1 \<le> v" "v < of_int 1 + 1" by simp_all
  then have "\<lfloor>v\<rfloor> = 1" by (rule floor_unique)
  then have f: "js_floor (js_div (Fin (181 / 2)) (Fin 60)) = Fin (of_int 1)"
    using v by simp
  have "js_rem (Fin (of_int 1)) (Fin (of_int 24)) = Fin (of_int (rem 1 24))"
    by (rule js_rem_int) simp
  then have h: "js_rem (js_floor (js_div (Fin (181 / 2)) (Fin 60))) (Fin 24) = Fin (of_int 1)"
    unfolding f by (simp add: rem_def del: js_rem.simps)
  have m: "js_rem (Fin (181 / 2)) (Fin 60) = Fin (61 / 2)"
    by (simp add: trunc_def floor_numeral_div)
  have p: "pad2_app (Fin (of_int 1)) = pad2 1"
    by (simp only: pad2_app_int)
  show ?thesis
    unfolding fromMinutes_app_def Let_def h m p
    by (simp add: pad2_app_def Number_toString_pos_half pad2_def String_int_def padStart0_def
        digits_of.simps digit_char_def js_def)
qed

text \<open>On a string that is not well-formed the older \<open>toMinutes\<close> returns NaN or throws.\<close>

lemma toMinutes_app_malformed:
  "toMinutes_app (JStr (js ''abc'')) = Inr NaN \<and> toMinutes_app JUndefined = Inl TypeError"
  by (simp add: toMinutes_app_def js_def)


text \<open>
  An hour part that converts to an infinity is numeric and passes the guard of \<open>toMinutes\<close>;
  its remainder is NaN, and so is the result.
\<close>

lemma Number_Infinity: "Number (js ''Infinity'') = PInf"
  by (simp add: Number_def js_def trim_def is_ws_def non_decimal_def str_unsigned_decimal_def)

lemma Number_00: "Number (js ''00'') = Fin 0"
  using Number_two_digits [of "0x30" "0x30"] by (simp add: js_def is_digit_def digit_value_def)

lemma toMinutes_infinite_hour: "toMinutes (JStr (js ''Infinity:00'')) = NaN"
proof -
  have "split 0x3A (js ''Infinity:00'') = [js ''Infinity'', js ''00'']"
    by (simp add: js_def)
  then show ?thesis
    by (simp add: toMinutes_def Number_Infinity Number_00) (simp add: js_def)
qed

section \<open>Claims about color derivation\<close>

lemma index_Some: "i < length xs \<Longrightarrow> index xs i = Some (xs ! i)"
  by (simp add: index_def)

lemma length_palettes: "length palettes = 4"
  by (simp add: palettes_def)

lemma length_palette: "pal \<in> set palettes \<Longrightarrow> length pal = 6"
  by (auto simp: palettes_def)

lemma hashColor_palette: "\<exists>c \<in> set (concat palettes). hashColor v = Inr (JStr c)"
proof -
  define h where "h = foldl hash_step 2166136261 (ToString (js_or v (JStr [])))"
  define i where "i = unat h mod length palettes"
  define pal where "pal = palettes ! i"
  define j where "j = unat (drop_bit 7 h) mod length pal"
  have i: "i < length palettes" by (simp add: i_def length_palettes)
  then have pal: "pal \<in> set palettes" by (simp add: pal_def)
  then have l: "length pal = 6" by (rule length_palette)
  then have j: "j < length pal" by (simp add: j_def)
  have "hashColor v = Inr (JStr (pal ! j))"
    using index_Some [OF i] index_Some [OF j] j
    by (simp add: hashColor_def Let_def h_def [symmetric] i_def [symmetric] pal_def [symmetric]
        j_def [symmetric])
  moreover have "pal ! j \<in> set pal" using j by (rule nth_mem)
  then have "pal ! j \<in> set (concat palettes)" using pal by auto
  ultimately show ?thesis by blast
qed

lemma hashColor_text:
  "ToString (js_or u (JStr [])) = ToString (js_or v (JStr [])) \<Longrightarrow> hashColor u = hashColor v"
  by (simp add: hashColor_def)

lemma ToUint32_int: "ToUint32 (Fin (of_int n)) = word_of_int n"
  by (simp add: trunc_def)

lemma hashColor_empty: "hashColor (JStr []) = Inr (JStr (js ''#F43F5E''))"
  by (simp add: hashColor_def js_or_def index_def palettes_def drop_bit_eq_div)

text \<open>
  C7. \<open>hashColor\<close> is a function of the label text alone: two labels with the same text
  \<open>String(s || "")\<close> get the same color, which is an entry of \<open>palettes\<close>; it throws for no
  label, and an \<open>undefined\<close> label is treated as the empty string.
\<close>

theorem hashColor_deterministic:
  "(\<exists>c \<in> set (concat palettes). hashColor v = Inr (JStr c))
   \<and> hashColor JUndefined = hashColor (JStr [])
   \<and> (ToString (js_or u (JStr [])) = ToString (js_or v (JStr [])) \<longrightarrow> hashColor u = hashColor v)"
  using hashColor_palette [of v] hashColor_text [of u v] hashColor_text [of JUndefined "JStr []"]
  by (simp add: js_or_def)

theorem hashColor_deterministic_witness:
  "(\<exists>c \<in> set (concat palettes). hashColor JNull = Inr (JStr c))
   \<and> hashColor JUndefined = hashColor (JStr [])
   \<and> ToString (js_or (JBool False) (JStr [])) = ToString (js_or JNull (JStr []))
   \<and> hashColor (JBool False) = hashColor JNull"
proof -
  note T = hashColor_deterministic [of JNull "JBool False"]
  have e: "ToString (js_or (JBool False) (JStr [])) = ToString (js_or JNull (JStr []))"
    by (simp add: js_or_def)
  have "hashColor (JBool False) = hashColor JNull"
    using T [THEN conjunct2, THEN conjunct2] e by (rule mp)
  then show ?thesis
    using T [THEN conjunct1] T [THEN conjunct2, THEN conjunct1] e by blast
qed

lemma trim_hash_fff: "trim (js ''#fff'') = js ''#fff''"
  by (simp add: trim_def js_def is_ws_def)

lemma isValidHex_examples:
  "isValidHex (JStr (js ''#fff''))" "isValidHex (JStr (js ''#ffffff''))"
  "\<not> isValidHex (JStr (js ''fff''))" "\<not> isValidHex (JStr (js ''ffffff''))"
  "\<not> isValidHex (JStr (js ''red''))" "\<not> isValidHex (JStr (js ''#ff''))"
  "\<not> isValidHex (JStr (js ''''))" "\<not> isValidHex JUndefined"
  "isValidHex (JStr (js '' #fff ''))"
  by (simp_all add: isValidHex_def trim_def js_def is_ws_def is_hex_digit_def is_digit_def)

text \<open>
  The sentence of the specification makes the leading \<open>#\<close> optional, so it accepts \<open>fff\<close>;
  \<open>isValidHex\<close> rejects it.
\<close>

theorem isValidHex_optional_hash_counterexample:
  "spec_isValidHexColor (js ''fff'') \<and> \<not> isValidHex (JStr (js ''fff''))"
  by (simp add: spec_isValidHexColor_def isValidHex_examples)
     (simp add: js_def is_hex_digit_def is_digit_def)

text \<open>
  C8, amended. \<open>isValidHex\<close> returns true exactly for the strings that, once surrounding
  white space is trimmed, are a \<open>#\<close> followed by 3 or 6 hexadecimal digits: the \<open>#\<close> is
  required. It accepts \<open>#fff\<close> and \<open>#ffffff\<close>, and rejects \<open>fff\<close>, \<open>ffffff\<close>, \<open>red\<close>, \<open>#ff\<close>,
  the empty string and values that are not strings.
\<close>

theorem isValidHex_iff:
  "(isValidHex v \<longleftrightarrow>
      (\<exists>s ds. v = JStr s \<and> trim s = 0x23 # ds \<and> (length ds = 3 \<or> length ds = 6)
               \<and> list_all is_hex_digit ds))
   \<and> isValidHex (JStr (js ''#fff'')) \<and> isValidHex (JStr (js ''#ffffff''))
   \<and> \<not> isValidHex (JStr (js ''fff'')) \<and> \<not> isValidHex (JStr (js ''ffffff''))
   \<and> \<not> isValidHex (JStr (js ''red'')) \<and> \<not> isValidHex (JStr (js ''#ff''))
   \<and> \<not> isValidHex (JStr (js '''')) \<and> \<not> isValidHex JUndefined"
proof -
  have "isValidHex v \<longleftrightarrow>
      (\<exists>s ds. v = JStr s \<and> trim s = 0x23 # ds \<and> (length ds = 3 \<or> length ds = 6)
               \<and> list_all is_hex_digit ds)"
    by (cases v) (auto simp: isValidHex_def split: list.splits)
  then show ?thesis using isValidHex_examples by simp
qed

theorem isValidHex_iff_witness:
  "trim (js ''#fff'') = 0x23 # js ''fff'' \<and> list_all is_hex_digit (js ''fff'')
   \<and> isValidHex (JStr (js ''#fff''))"
proof -
  have t: "trim (js ''#fff'') = 0x23 # js ''fff''" by (simp add: trim_hash_fff) (simp add: js_def)
  have h: "list_all is_hex_digit (js ''fff'')" by (simp add: js_def is_hex_digit_def is_digit_def)
  have l: "length (js ''fff'') = 3" by (simp add: js_def)
  have "isValidHex (JStr (js ''#fff''))"
    using isValidHex_iff [of "JStr (js ''#fff'')", THEN conjunct1, THEN iffD2] t h l by blast
  with t h show ?thesis by simp
qed

section \<open>Claims about the layout\<close>

lemma hour_term:
  "h \<noteq> NaN \<Longrightarrow>
   js_mul (js_rem (js_floor h) (Fin 24)) (Fin 60) = NaN
   \<or> (\<exists>k. js_mul (js_rem (js_floor h) (Fin 24)) (Fin 60) = Fin (of_int k) \<and> \<bar>k\<bar> < 1440)"
proof (cases h)
  case (Fin x)
  define r where "r = rem \<lfloor>x\<rfloor> 24"
  have r: "\<bar>r\<bar> < 24" unfolding r_def by (rule rem_bound) simp
  have 1: "js_rem (js_floor (Fin x)) (Fin 24) = Fin (of_int r)"
    using js_rem_int [of 24 "\<lfloor>x\<rfloor>"] by (simp add: r_def)
  have "\<bar>r * 60\<bar> < 2 ^ 53" using r by simp
  then have "round_double (of_int (r * 60)) = Fin (of_int (r * 60))" by (rule round_double_int)
  then have 2: "js_mul (Fin (of_int r)) (Fin 60) = Fin (of_int (r * 60))" by simp
  have "\<bar>r * 60\<bar> < 1440" using r by simp
  then show ?thesis unfolding Fin 1 2 by blast
qed simp_all

lemma minute_term:
  "m \<noteq> NaN \<Longrightarrow> \<exists>c. clamp (js_floor m) (Fin 0) (Fin 59) = Fin (of_int c) \<and> 0 \<le> c \<and> c \<le> 59"
proof (cases m)
  case (Fin y)
  have "clamp (js_floor (Fin y)) (Fin 0) (Fin 59) = Fin (of_int (max 0 (min 59 \<lfloor>y\<rfloor>)))"
    by (simp add: clamp_int)
  then show ?thesis unfolding Fin by (intro exI [of _ "max 0 (min 59 \<lfloor>y\<rfloor>)"]) simp
next
  case PInf
  have "clamp (js_floor PInf) (Fin 0) (Fin 59) = Fin (of_int 59)"
    by (simp add: clamp_def js_min_def js_max_def)
  then show ?thesis unfolding PInf by (intro exI [of _ 59]) simp
next
  case NInf
  have "clamp (js_floor NInf) (Fin 0) (Fin 59) = Fin (of_int 0)"
    by (simp add: clamp_def js_min_def js_max_def)
  then show ?thesis unfolding NInf by (intro exI [of _ 0]) simp
qed simp

lemma zero_int: "\<exists>k. (0::rat) = of_int k \<and> \<bar>k\<bar> < 1500"
  by (intro exI [of _ 0]) simp

lemma toMinutes_range:
  "toMinutes v = NaN \<or> (\<exists>k. toMinutes v = Fin (of_int k) \<and> \<bar>k\<bar> < 1500)"
proof (cases v)
  case (JStr s)
  show ?thesis
  proof (cases "map Number (split 0x3A s)")
    case Nil
    then show ?thesis by (simp add: JStr toMinutes_def zero_int)
  next
    case (Cons h ps)
    show ?thesis
    proof (cases ps)
      case Nil
      then show ?thesis using Cons by (simp add: JStr toMinutes_def zero_int)
    next
      case (Cons m qs)
      show ?thesis
      proof (cases "s = [] \<or> h = NaN \<or> m = NaN")
        case True
        then have "toMinutes v = Fin (of_int 0)"
          using \<open>map Number (split 0x3A s) = h # ps\<close> Cons by (auto simp: JStr toMinutes_def)
        then show ?thesis by (intro disjI2 exI [of _ 0]) simp
      next
        case False
        then have t: "toMinutes v =
            js_add (js_mul (js_rem (js_floor h) (Fin 24)) (Fin 60))
                   (clamp (js_floor m) (Fin 0) (Fin 59))"
          using \<open>map Number (split 0x3A s) = h # ps\<close> Cons
          by (simp add: JStr toMinutes_def
              del: js_floor.simps js_rem.simps js_mul.simps js_add.simps)
        from False obtain c where c: "clamp (js_floor m) (Fin 0) (Fin 59) = Fin (of_int c)"
          "0 \<le> c" "c \<le> 59" using minute_term by blast
        from False consider "js_mul (js_rem (js_floor h) (Fin 24)) (Fin 60) = NaN"
          | k where "js_mul (js_rem (js_floor h) (Fin 24)) (Fin 60) = Fin (of_int k)" "\<bar>k\<bar> < 1440"
          using hour_term by blast
        then show ?thesis
        proof cases
          case 1
          then show ?thesis unfolding t by simp
        next
          case 2
          have "\<bar>k + c\<bar> < 2 ^ 53" using 2(2) c(2,3) by simp
          then have "round_double (of_int (k + c)) = Fin (of_int (k + c))"
            by (rule round_double_int)
          then have "toMinutes v = Fin (of_int (k + c))" unfolding t 2(1) c(1) by simp
          moreover have "\<bar>k + c\<bar> < 1500" using 2(2) c(2,3) by simp
          ultimately show ?thesis by blast
        qed
      qed
    qed
  qed
qed (simp_all add: toMinutes_def zero_int)


lemma minDay_range:
  "minDay v = NaN \<or> (\<exists>k. minDay v = Fin (of_int k) \<and> 0 \<le> k \<and> k \<le> 1439)"
proof -
  consider "toMinutes v = NaN" | k where "toMinutes v = Fin (of_int k)"
    using toMinutes_range by blast
  then show ?thesis
  proof cases
    case 1
    then show ?thesis by (simp add: minDay_def clamp_def js_min_def js_max_def)
  next
    case 2
    have "minDay v = Fin (of_int (max 0 (min 1439 k)))"
      by (simp add: minDay_def 2 clamp_def js_min_def js_max_def max_def min_def)
    then show ?thesis by (intro disjI2 exI [of _ "max 0 (min 1439 k)"]) simp
  qed
qed

lemma maxDay_range:
  "maxDay v = NaN \<or> (\<exists>k. maxDay v = Fin (of_int k) \<and> 1 \<le> k \<and> k \<le> 1440)"
proof -
  consider "toMinutes v = NaN" | k where "toMinutes v = Fin (of_int k)"
    using toMinutes_range by blast
  then show ?thesis
  proof cases
    case 1
    then show ?thesis by (simp add: maxDay_def clamp_def js_min_def js_max_def)
  next
    case 2
    have "maxDay v = Fin (of_int (max 1 (min 1440 k)))"
      by (simp add: maxDay_def 2 clamp_def js_min_def js_max_def max_def min_def)
    then show ?thesis by (intro disjI2 exI [of _ "max 1 (min 1440 k)"]) simp
  qed
qed

lemma js_sub_int:
  assumes "\<bar>a - b\<bar> < 2 ^ 53"
  shows "js_sub (Fin (of_int a)) (Fin (of_int b)) = Fin (of_int (a - b))"
proof -
  have "round_double (of_int (a - b)) = Fin (of_int (a - b))"
    using assms by (rule round_double_int)
  then show ?thesis by (simp add: js_sub_def)
qed

lemma daySpan_fallback:
  "\<not> js_less (minDay gs) (maxDay ge) \<Longrightarrow> daySpan gs ge = Fin 60"
  by (simp add: daySpan_def rawSpan_def js_max_def)

lemma daySpan_range: "\<exists>d. daySpan gs ge = Fin (of_int d) \<and> 60 \<le> d \<and> d \<le> 1440"
proof (cases "js_less (minDay gs) (maxDay ge)")
  case False
  then have "daySpan gs ge = Fin (of_int 60)" by (simp add: daySpan_fallback)
  then show ?thesis by (intro exI [of _ 60]) simp
next
  case True
  then have "minDay gs \<noteq> NaN" "maxDay ge \<noteq> NaN" by (auto elim: js_less.elims)
  then obtain a b where a: "minDay gs = Fin (of_int a)" "0 \<le> a" "a \<le> 1439"
    and b: "maxDay ge = Fin (of_int b)" "1 \<le> b" "b \<le> 1440"
    using minDay_range [of gs] maxDay_range [of ge] by blast
  have lt: "a < b" using True by (simp add: a b)
  have "\<bar>b - a\<bar> < 2 ^ 53" using a b by simp
  then have "js_sub (Fin (of_int b)) (Fin (of_int a)) = Fin (of_int (b - a))"
    by (rule js_sub_int)
  then have "rawSpan gs ge = Fin (of_int (b - a))"
    using True by (simp add: rawSpan_def a b)
  then have "daySpan gs ge = Fin (of_int (max 60 (b - a)))"
    by (simp add: daySpan_def js_max_def max_def)
  then show ?thesis using a b lt by (intro exI [of _ "max 60 (b - a)"]) simp
qed

lemma toMinutes_1000: "toMinutes (JStr (js ''10:00'')) = Fin 600"
  using toMinutes_two_digits [of "0x31" "0x30" "0x30" "0x30"]
  by (simp add: js_def is_digit_def digit_value_def)

lemma toMinutes_0900: "toMinutes (JStr (js ''09:00'')) = Fin 540"
  using toMinutes_two_digits [of "0x30" "0x39" "0x30" "0x30"]
  by (simp add: js_def is_digit_def digit_value_def)

lemma window_1000_0900:
  "\<not> js_less (minDay (JStr (js ''10:00''))) (maxDay (JStr (js ''09:00'')))"
  by (simp add: minDay_def maxDay_def toMinutes_1000 toMinutes_0900 clamp_def js_min_def js_max_def)

text \<open>
  C4. For every configured day window the effective span \<open>daySpan\<close> is a finite number of at
  least 60 (and at most 1440) minutes; where the end of the window is not after its start
  the span is the fallback 60, as for the window \<open>10:00\<close> to \<open>09:00\<close>. So the divisor of the
  minute-to-x map is never zero or negative.
\<close>

theorem daySpan_at_least_60:
  "(\<exists>d. daySpan gs ge = Fin (of_int d) \<and> 60 \<le> d \<and> d \<le> 1440)
   \<and> (\<not> js_less (minDay gs) (maxDay ge) \<longrightarrow> daySpan gs ge = Fin 60)"
  using daySpan_range [of gs ge] daySpan_fallback [of gs ge] by blast

theorem daySpan_at_least_60_witness:
  "\<not> js_less (minDay (JStr (js ''10:00''))) (maxDay (JStr (js ''09:00'')))
   \<and> daySpan (JStr (js ''10:00'')) (JStr (js ''09:00'')) = Fin 60"
  using daySpan_at_least_60 [of "JStr (js ''10:00'')" "JStr (js ''09:00'')"] window_1000_0900
  by blast

subsection \<open>The order of \<open>sorted\<close>\<close>

lemma sorted_tasks_cmp: "sorted_tasks ts = sort_cmp cmp_start ts"
  by (simp add: sorted_tasks_def cmp_start_def [abs_def])

lemma mset_insort_cmp: "mset (insort_cmp cmp x ys) = add_mset x (mset ys)"
  by (induction ys) auto

lemma mset_sort_cmp: "mset (sort_cmp cmp xs) = mset xs"
  by (induction xs) (auto simp: sort_cmp_def mset_insort_cmp)

lemma finite_key:
  assumes "toMinutes (start t) \<noteq> NaN"
  shows "\<exists>k. toMinutes (start t) = Fin (of_int k) \<and> start_key t = of_int k \<and> \<bar>k\<bar> < 1500"
  using toMinutes_range [of "start t"] assms by (auto simp: start_key_def)

lemma cmp_start_pos:
  assumes "toMinutes (start x) \<noteq> NaN" "toMinutes (start y) \<noteq> NaN"
  shows "js_less (Fin 0) (cmp_start x y) \<longleftrightarrow> \<not> start_key x \<le> start_key y"
proof -
  obtain a where a: "toMinutes (start x) = Fin (of_int a)" "start_key x = of_int a" "\<bar>a\<bar> < 1500"
    using finite_key [OF assms(1)] by blast
  obtain b where b: "toMinutes (start y) = Fin (of_int b)" "start_key y = of_int b" "\<bar>b\<bar> < 1500"
    using finite_key [OF assms(2)] by blast
  have "\<bar>a - b\<bar> < 2 ^ 53" using a(3) b(3) by simp
  then have "cmp_start x y = Fin (of_int (a - b))"
    unfolding cmp_start_def a(1) b(1) by (rule js_sub_int)
  then show ?thesis by (auto simp: a(2) b(2))
qed

lemma insort_cmp_key:
  assumes "toMinutes (start x) \<noteq> NaN" "\<forall>y \<in> set ys. toMinutes (start y) \<noteq> NaN"
  shows "insort_cmp cmp_start x ys = insort_key start_key x ys"
  using assms(2) by (induction ys) (simp_all add: cmp_start_pos [OF assms(1)])

lemma sort_cmp_key:
  assumes "\<forall>t \<in> set ts. toMinutes (start t) \<noteq> NaN"
  shows "sort_cmp cmp_start ts = sort_key start_key ts"
  using assms
proof (induction ts)
  case Nil
  then show ?case by (simp add: sort_cmp_def)
next
  case (Cons t ts)
  then have "sort_cmp cmp_start ts = sort_key start_key ts" by simp
  moreover have "\<forall>y \<in> set (sort_key start_key ts). toMinutes (start y) \<noteq> NaN"
    using Cons.prems by simp
  ultimately show ?case
    using Cons.prems insort_cmp_key [of t "sort_key start_key ts"]
    by (simp add: sort_cmp_def)
qed

lemma sorted_tasks_ascending:
  assumes "\<forall>t \<in> set ts. toMinutes (start t) \<noteq> NaN"
  shows "sorted_wrt (\<lambda>a b. js_le (toMinutes (start a)) (toMinutes (start b))) (sorted_tasks ts)"
proof -
  have "sorted (map start_key (sort_key start_key ts))" by (rule sorted_sort_key)
  then have "sorted_wrt (\<lambda>a b. start_key a \<le> start_key b) (sorted_tasks ts)"
    by (simp add: sorted_tasks_cmp sort_cmp_key [OF assms] sorted_map)
  moreover have "js_le (toMinutes (start a)) (toMinutes (start b))"
    if "a \<in> set (sorted_tasks ts)" "b \<in> set (sorted_tasks ts)" "start_key a \<le> start_key b"
    for a b
  proof -
    have "a \<in> set ts" "b \<in> set ts"
      using that(1,2) by (simp_all add: sorted_tasks_cmp sort_cmp_key [OF assms])
    then have "toMinutes (start a) \<noteq> NaN" "toMinutes (start b) \<noteq> NaN" using assms by simp_all
    then show ?thesis using finite_key [of a] finite_key [of b] that(3) by auto
  qed
  ultimately show ?thesis by (rule sorted_wrt_mono_rel [rotated])
qed

lemma sorted_tasks_stable:
  assumes "\<forall>t \<in> set ts. toMinutes (start t) \<noteq> NaN"
  shows "filter (\<lambda>t. toMinutes (start t) = Fin q) (sorted_tasks ts)
         = filter (\<lambda>t. toMinutes (start t) = Fin q) ts"
proof -
  have e: "toMinutes (start t) = Fin q \<longleftrightarrow> start_key t = q" if "t \<in> set ts" for t
    using finite_key [of t] assms that by (auto simp: start_key_def)
  have "filter (\<lambda>t. toMinutes (start t) = Fin q) (sort_key start_key ts)
        = filter (\<lambda>t. start_key t = q) (sort_key start_key ts)"
    by (rule filter_cong) (simp_all add: e)
  also have "\<dots> = filter (\<lambda>t. start_key t = q) ts" by (rule sort_key_stable)
  also have "\<dots> = filter (\<lambda>t. toMinutes (start t) = Fin q) ts"
    by (rule filter_cong) (simp_all add: e)
  finally show ?thesis by (simp add: sorted_tasks_cmp sort_cmp_key [OF assms])
qed

subsection \<open>The loop that paints\<close>

lemma safeColor_total: "\<exists>c. safeColor t = Inr c"
  using hashColor_palette [of "title t"] by (auto simp: safeColor_def)

lemma paint_total: "\<exists>bs. paint minD dspan rows idx ts = Inr bs"
proof (induction ts arbitrary: idx)
  case Nil
  then show ?case by simp
next
  case (Cons t ts)
  obtain c where c: "safeColor t = Inr c" using safeColor_total by blast
  obtain bs where bs: "paint minD dspan rows (Suc idx) ts = Inr bs" using Cons by blast
  show ?case by (simp add: Let_def c bs)
qed

lemma paint_tasks:
  "paint minD dspan rows idx ts = Inr bs \<Longrightarrow>
   map band_task bs = filter (\<lambda>t. \<not> skipped minD dspan t) ts"
proof (induction ts arbitrary: idx bs)
  case Nil
  then show ?case by simp
next
  case (Cons t ts)
  show ?case
  proof (cases "skipped minD dspan t")
    case True
    then have "paint minD dspan rows (Suc idx) ts = Inr bs"
      using Cons.prems by (simp add: skipped_def Let_def)
    then show ?thesis using Cons.IH True by simp
  next
    case False
    then obtain c bs' where "safeColor t = Inr c"
      "paint minD dspan rows (Suc idx) ts = Inr bs'"
      "bs = \<lparr>band_task = t, band_idx = idx, band_s = clamped_start minD dspan t,
             band_e = clamped_end minD dspan t, band_row = int idx mod rows,
             band_y = 64 + int idx mod rows * (rowHeight + gaps), band_color = c\<rparr> # bs'"
      using Cons.prems by (auto simp: skipped_def Let_def split: sum.splits)
    then show ?thesis using Cons.IH False by simp
  qed
qed

lemma paint_bands:
  "paint minD dspan rows idx ts = Inr bs \<Longrightarrow> b \<in> set bs \<Longrightarrow>
   idx \<le> band_idx b \<and> band_idx b < idx + length ts \<and> ts ! (band_idx b - idx) = band_task b
   \<and> \<not> skipped minD dspan (band_task b)
   \<and> band_s b = clamped_start minD dspan (band_task b)
   \<and> band_e b = clamped_end minD dspan (band_task b)
   \<and> band_row b = int (band_idx b) mod rows
   \<and> band_y b = 64 + band_row b * (rowHeight + gaps)
   \<and> safeColor (band_task b) = Inr (band_color b)"
proof (induction ts arbitrary: idx bs)
  case Nil
  then show ?case by simp
next
  case (Cons t ts)
  show ?case
  proof (cases "skipped minD dspan t")
    case True
    then have "paint minD dspan rows (Suc idx) ts = Inr bs"
      using Cons.prems by (simp add: skipped_def Let_def)
    from Cons.IH [OF this Cons.prems(2)] show ?thesis by (auto simp: nth_Cons')
  next
    case False
    then obtain c bs' where c: "safeColor t = Inr c"
      and p: "paint minD dspan rows (Suc idx) ts = Inr bs'"
      and bs: "bs = \<lparr>band_task = t, band_idx = idx, band_s = clamped_start minD dspan t,
             band_e = clamped_end minD dspan t, band_row = int idx mod rows,
             band_y = 64 + int idx mod rows * (rowHeight + gaps), band_color = c\<rparr> # bs'"
      using Cons.prems by (auto simp: skipped_def Let_def split: sum.splits)
    show ?thesis
    proof (cases "b \<in> set bs'")
      case True
      from Cons.IH [OF p True] show ?thesis by (auto simp: nth_Cons')
    next
      case False
      then have "b = \<lparr>band_task = t, band_idx = idx, band_s = clamped_start minD dspan t,
             band_e = clamped_end minD dspan t, band_row = int idx mod rows,
             band_y = 64 + int idx mod rows * (rowHeight + gaps), band_color = c\<rparr>"
        using Cons.prems(2) bs by simp
      then show ?thesis using c \<open>\<not> skipped minD dspan t\<close> by simp
    qed
  qed
qed

subsection \<open>The examples, evaluated\<close>

lemma js_add_int:
  assumes "\<bar>a + b\<bar> < 2 ^ 53"
  shows "js_add (Fin (of_int a)) (Fin (of_int b)) = Fin (of_int (a + b))"
proof -
  have "round_double (of_int (a + b)) = Fin (of_int (a + b))"
    using assms by (rule round_double_int)
  then show ?thesis by simp
qed

lemma clamp_Fin: "clamp (Fin v) (Fin lo) (Fin hi) = Fin (max lo (min hi v))"
  by (simp add: clamp_def js_min_def js_max_def max_def min_def)

lemma toMinutes_examples:
  "toMinutes (JStr (js ''06:00'')) = Fin 360" "toMinutes (JStr (js ''22:00'')) = Fin 1320"
  "toMinutes (JStr (js ''11:00'')) = Fin 660" "toMinutes (JStr (js ''12:30'')) = Fin 750"
  "toMinutes (JStr (js ''13:15'')) = Fin 795"
  using toMinutes_two_digits [of "0x30" "0x36" "0x30" "0x30"]
    toMinutes_two_digits [of "0x32" "0x32" "0x30" "0x30"]
    toMinutes_two_digits [of "0x31" "0x31" "0x30" "0x30"]
    toMinutes_two_digits [of "0x31" "0x32" "0x33" "0x30"]
    toMinutes_two_digits [of "0x31" "0x33" "0x31" "0x35"]
  by (simp_all add: js_def is_digit_def digit_value_def)

lemma window_minDay: "minDay (JStr (js ''06:00'')) = Fin 360"
  by (simp add: minDay_def toMinutes_examples clamp_Fin)

lemma window_maxDay: "maxDay (JStr (js ''22:00'')) = Fin 1320"
  by (simp add: maxDay_def toMinutes_examples clamp_Fin)

lemma window_daySpan: "daySpan (JStr (js ''06:00'')) (JStr (js ''22:00'')) = Fin 960"
  using js_sub_int [of 1320 360]
  by (simp add: daySpan_def rawSpan_def window_minDay window_maxDay js_max_def)

lemma window_end: "round_double 1320 = Fin 1320"
  using round_double_int [of 1320] by simp

lemma rows_420: "maxRows (canvas_H 420) = 7"
  by (simp add: maxRows_def canvas_H_def usableHeight_def rowHeight_def gaps_def)

lemma skipped_backwards: "skipped (Fin 360) (Fin 960) task_backwards"
  by (simp add: skipped_def clamped_start_def clamped_end_def task_backwards_def window_end
      toMinutes_1000 toMinutes_0900 clamp_Fin)

lemma not_skipped_examples:
  "\<not> skipped (Fin 360) (Fin 960) task_deep_work"
  "\<not> skipped (Fin 360) (Fin 960) task_workout"
  "\<not> skipped (Fin 360) (Fin 960) task_untitled"
  by (simp_all add: skipped_def clamped_start_def clamped_end_def task_deep_work_def
      task_workout_def task_untitled_def window_end toMinutes_examples toMinutes_0900 clamp_Fin)

lemma sorted_two: "sorted_tasks [task_workout, task_deep_work] = [task_deep_work, task_workout]"
  using js_sub_int [of 750 540]
  by (simp add: sorted_tasks_def sort_cmp_def task_workout_def task_deep_work_def
      toMinutes_examples toMinutes_0900)


lemma hashColor_undefined: "hashColor JUndefined = Inr (JStr (js ''#F43F5E''))"
  using hashColor_text [of JUndefined "JStr []"] by (simp add: js_or_def hashColor_empty)

lemma safeColor_untitled: "safeColor task_untitled = Inr (JStr (js ''#F43F5E''))"
  by (simp add: safeColor_def task_untitled_def isValidHex_examples hashColor_undefined)

lemma not_valid_red: "\<not> isValidHex (color task_untitled)"
  by (simp add: task_untitled_def isValidHex_examples)

subsection \<open>The draw effect\<close>

lemma Draw_total: "\<exists>bs. Draw a ch = Inr (a, bs)"
proof -
  obtain bs where
    "paint (minDay (gridStart a)) (daySpan (gridStart a) (gridEnd a)) (maxRows (canvas_H ch)) 0
       (sorted_tasks (tasks a)) = Inr bs"
    using paint_total by blast
  then show ?thesis by (simp add: Draw_def Let_def)
qed

lemma Draw_paint:
  "Draw a ch = Inr (a', bs) \<Longrightarrow>
   a' = a \<and> paint (minDay (gridStart a)) (daySpan (gridStart a) (gridEnd a))
              (maxRows (canvas_H ch)) 0 (sorted_tasks (tasks a)) = Inr bs"
  by (auto simp: Draw_def Let_def split: sum.splits)

lemma set_sorted_tasks: "set (sorted_tasks ts) = set ts"
  using mset_sort_cmp [of cmp_start ts] by (metis sorted_tasks_cmp set_mset_mset)

lemma app_of_simps:
  "tasks (app_of ts) = ts" "minDay (gridStart (app_of ts)) = Fin 360"
  "daySpan (gridStart (app_of ts)) (gridEnd (app_of ts)) = Fin 960"
  by (simp_all add: app_of_def window_minDay window_daySpan)

lemma Draw_two:
  "Draw (app_of [task_workout, task_deep_work]) 420 =
     Inr (app_of [task_workout, task_deep_work],
          [\<lparr>band_task = task_deep_work, band_idx = 0, band_s = Fin 540, band_e = Fin 660,
            band_row = 0, band_y = 64, band_color = JStr (js ''#FFD166'')\<rparr>,
           \<lparr>band_task = task_workout, band_idx = 1, band_s = Fin 750, band_e = Fin 795,
            band_row = 1, band_y = 98, band_color = JStr (js ''#4857FF'')\<rparr>])"
proof -
  have v: "isValidHex (JStr (js ''#FFD166''))" "isValidHex (JStr (js ''#4857FF''))"
    by (simp_all add: isValidHex_def trim_def js_def is_ws_def is_hex_digit_def is_digit_def)
  have c: "safeColor task_deep_work = Inr (JStr (js ''#FFD166''))"
    "safeColor task_workout = Inr (JStr (js ''#4857FF''))"
    using v by (simp_all add: safeColor_def task_deep_work_def task_workout_def)
  have s: "clamped_start (Fin 360) (Fin 960) task_deep_work = Fin 540"
    "clamped_end (Fin 360) (Fin 960) task_deep_work = Fin 660"
    "clamped_start (Fin 360) (Fin 960) task_workout = Fin 750"
    "clamped_end (Fin 360) (Fin 960) task_workout = Fin 795"
    by (simp_all add: clamped_start_def clamped_end_def task_deep_work_def task_workout_def
        window_end toMinutes_examples toMinutes_0900 clamp_Fin)
  show ?thesis
    by (simp add: Draw_def app_of_simps rows_420 sorted_two Let_def s c rowHeight_def gaps_def)
qed




lemma maxRows_eq: "maxRows H = usableHeight H div (rowHeight + gaps) \<and> 1 \<le> maxRows H"
proof -
  have "120 \<le> usableHeight H" by (simp add: usableHeight_def)
  then have "3 \<le> usableHeight H div 34" by simp
  then show ?thesis by (simp add: maxRows_def rowHeight_def gaps_def)
qed

lemma finite_keys_two:
  "\<forall>t \<in> set [task_workout, task_deep_work]. toMinutes (start t) \<noteq> NaN"
  by (simp add: task_workout_def task_deep_work_def toMinutes_examples toMinutes_0900)

text \<open>
  C6. Row packing: \<open>sorted\<close> is a rearrangement of the tasks; where every start time parses
  to a number it is ascending in the start minute and stable (tasks with the same start
  minute keep their order). A painted task at index \<open>i\<close> of \<open>sorted\<close> has row
  \<open>i mod maxRows\<close>, where \<open>maxRows\<close> is \<open>\<lfloor>usableHeight / (rowHeight + gaps)\<rfloor>\<close> and at least 1.
\<close>

theorem row_packing:
  "mset (sorted_tasks ts) = mset ts
   \<and> ((\<forall>t \<in> set ts. toMinutes (start t) \<noteq> NaN) \<longrightarrow>
        sorted_wrt (\<lambda>a b. js_le (toMinutes (start a)) (toMinutes (start b))) (sorted_tasks ts)
        \<and> (\<forall>q. filter (\<lambda>t. toMinutes (start t) = Fin q) (sorted_tasks ts)
                = filter (\<lambda>t. toMinutes (start t) = Fin q) ts))
   \<and> (\<forall>bs b. Draw a ch = Inr (a, bs) \<and> b \<in> set bs \<longrightarrow>
          band_idx b < length (sorted_tasks (tasks a))
          \<and> sorted_tasks (tasks a) ! band_idx b = band_task b
          \<and> band_row b = int (band_idx b) mod maxRows (canvas_H ch))
   \<and> maxRows H = usableHeight H div (rowHeight + gaps) \<and> 1 \<le> maxRows H"
proof -
  have 1: "mset (sorted_tasks ts) = mset ts"
    by (simp add: sorted_tasks_cmp mset_sort_cmp)
  have 2: "sorted_wrt (\<lambda>a b. js_le (toMinutes (start a)) (toMinutes (start b))) (sorted_tasks ts)
        \<and> (\<forall>q. filter (\<lambda>t. toMinutes (start t) = Fin q) (sorted_tasks ts)
                = filter (\<lambda>t. toMinutes (start t) = Fin q) ts)"
    if "\<forall>t \<in> set ts. toMinutes (start t) \<noteq> NaN"
    using sorted_tasks_ascending [OF that] sorted_tasks_stable [OF that] by blast
  have 3: "band_idx b < length (sorted_tasks (tasks a))
          \<and> sorted_tasks (tasks a) ! band_idx b = band_task b
          \<and> band_row b = int (band_idx b) mod maxRows (canvas_H ch)"
    if "Draw a ch = Inr (a, bs) \<and> b \<in> set bs" for bs b
  proof -
    from that have "paint (minDay (gridStart a)) (daySpan (gridStart a) (gridEnd a))
              (maxRows (canvas_H ch)) 0 (sorted_tasks (tasks a)) = Inr bs"
      using Draw_paint by blast
    from paint_bands [OF this] that show ?thesis by simp
  qed
  from 1 2 3 maxRows_eq [of H] show ?thesis by blast
qed

theorem row_packing_witness:
  "toMinutes (start task_workout) \<noteq> NaN \<and> toMinutes (start task_deep_work) \<noteq> NaN
   \<and> sorted_tasks [task_workout, task_deep_work] = [task_deep_work, task_workout]
   \<and> sorted_wrt (\<lambda>a b. js_le (toMinutes (start a)) (toMinutes (start b)))
        (sorted_tasks [task_workout, task_deep_work])
   \<and> (\<exists>bs. Draw (app_of [task_workout, task_deep_work]) 420
               = Inr (app_of [task_workout, task_deep_work], bs)
          \<and> map band_task bs = [task_deep_work, task_workout]
          \<and> (\<forall>b \<in> set bs. band_row b = int (band_idx b) mod 7))"
proof -
  note T = row_packing [of "[task_workout, task_deep_work]"
      "app_of [task_workout, task_deep_work]" 420]
  have s: "sorted_wrt (\<lambda>a b. js_le (toMinutes (start a)) (toMinutes (start b)))
        (sorted_tasks [task_workout, task_deep_work])"
    using T finite_keys_two by blast
  have r: "band_row b = int (band_idx b) mod 7"
    if "Draw (app_of [task_workout, task_deep_work]) 420
          = Inr (app_of [task_workout, task_deep_work], bs)" "b \<in> set bs" for bs b
    using T that rows_420 by (metis (no_types, lifting))
  have k: "toMinutes (start task_workout) \<noteq> NaN" "toMinutes (start task_deep_work) \<noteq> NaN"
    using finite_keys_two by simp_all
  show ?thesis
    using k sorted_two s r Draw_two by (intro conjI exI) (assumption | simp)+
qed

text \<open>
  C9. For a task it paints, a draw uses the stored color where \<open>isValidHex\<close> accepts it and
  \<open>hashColor (title)\<close> otherwise; every task that is not skipped is painted. The draw
  returns the state it read, so the stored records, their color fields included, are
  unchanged, and each band carries its task as stored.
\<close>

theorem derived_color_substituted:
  "\<exists>bs. Draw a ch = Inr (a, bs)
     \<and> (\<forall>b \<in> set bs. band_task b \<in> set (tasks a)
           \<and> (if isValidHex (color (band_task b)) then band_color b = color (band_task b)
               else hashColor (title (band_task b)) = Inr (band_color b)))
     \<and> (\<forall>t \<in> set (tasks a).
           \<not> skipped (minDay (gridStart a)) (daySpan (gridStart a) (gridEnd a)) t \<longrightarrow>
           (\<exists>b \<in> set bs. band_task b = t))"
proof -
  obtain bs where d: "Draw a ch = Inr (a, bs)" using Draw_total by blast
  then have p: "paint (minDay (gridStart a)) (daySpan (gridStart a) (gridEnd a))
              (maxRows (canvas_H ch)) 0 (sorted_tasks (tasks a)) = Inr bs"
    using Draw_paint by blast
  have m: "map band_task bs =
         filter (\<lambda>t. \<not> skipped (minDay (gridStart a)) (daySpan (gridStart a) (gridEnd a)) t)
           (sorted_tasks (tasks a))"
    using p by (rule paint_tasks)
  have 1: "band_task b \<in> set (tasks a)
           \<and> (if isValidHex (color (band_task b)) then band_color b = color (band_task b)
               else hashColor (title (band_task b)) = Inr (band_color b))"
    if "b \<in> set bs" for b
  proof -
    have "band_task b \<in> set (map band_task bs)" using that by simp
    then have "band_task b \<in> set (tasks a)" unfolding m by (simp add: set_sorted_tasks)
    moreover have "safeColor (band_task b) = Inr (band_color b)"
      using paint_bands [OF p that] by simp
    ultimately show ?thesis by (auto simp: safeColor_def split: if_splits)
  qed
  have 2: "\<exists>b \<in> set bs. band_task b = t"
    if "t \<in> set (tasks a)"
      "\<not> skipped (minDay (gridStart a)) (daySpan (gridStart a) (gridEnd a)) t" for t
  proof -
    have "t \<in> set (map band_task bs)" unfolding m using that by (simp add: set_sorted_tasks)
    then show ?thesis by auto
  qed
  from d 1 2 show ?thesis by blast
qed

theorem derived_color_substituted_witness:
  "task_untitled \<in> set (tasks (app_of [task_untitled]))
   \<and> \<not> skipped (minDay (gridStart (app_of [task_untitled])))
         (daySpan (gridStart (app_of [task_untitled])) (gridEnd (app_of [task_untitled])))
         task_untitled
   \<and> \<not> isValidHex (color task_untitled)
   \<and> (\<exists>bs. Draw (app_of [task_untitled]) 420 = Inr (app_of [task_untitled], bs)
          \<and> (\<exists>b \<in> set bs. band_task b = task_untitled
                \<and> band_color b = JStr (js ''#F43F5E'')))"
proof -
  let ?a = "app_of [task_untitled]"
  have i: "task_untitled \<in> set (tasks ?a)" by (simp add: app_of_simps)
  have s: "\<not> skipped (minDay (gridStart ?a)) (daySpan (gridStart ?a) (gridEnd ?a)) task_untitled"
    by (simp add: app_of_simps not_skipped_examples)
  obtain bs where d: "Draw ?a 420 = Inr (?a, bs)"
    and c: "\<forall>b \<in> set bs. band_task b \<in> set (tasks ?a)
           \<and> (if isValidHex (color (band_task b)) then band_color b = color (band_task b)
               else hashColor (title (band_task b)) = Inr (band_color b))"
    and e: "\<forall>t \<in> set (tasks ?a).
           \<not> skipped (minDay (gridStart ?a)) (daySpan (gridStart ?a) (gridEnd ?a)) t \<longrightarrow>
           (\<exists>b \<in> set bs. band_task b = t)"
    using derived_color_substituted [of ?a 420] by blast
  from e i s obtain b where b: "b \<in> set bs" "band_task b = task_untitled" by blast
  with c not_valid_red have "hashColor (title task_untitled) = Inr (band_color b)" by auto
  then have "band_color b = JStr (js ''#F43F5E'')"
    by (simp add: task_untitled_def hashColor_undefined)
  with i s not_valid_red d b show ?thesis by blast
qed

section \<open>Where the older file differs\<close>

text \<open>
  The claims above are proved of src/src/App.jsx. The older src/app.jsx lacks the guards:
  its \<open>hashColor\<close> throws on an absent label, and its day span is NaN when a bound of the
  window is the empty string.
\<close>

lemma hashColor_app_undefined: "hashColor_app JUndefined = Inl TypeError"
  by (simp add: hashColor_app_def)

lemma daySpan_app_empty: "daySpan_app (JStr []) (JStr (js ''22:00'')) = Inr NaN"
proof -
  have "toMinutes_app (JStr (js ''22:00'')) = Inr (Fin 1320)"
    using toMinutes_app_two_digits [of "0x32" "0x32" "0x30" "0x30"]
    by (simp add: js_def is_digit_def digit_value_def)
  moreover have "toMinutes_app (JStr []) = Inr NaN"
    by (simp add: toMinutes_app_def)
  ultimately show ?thesis
    by (simp add: daySpan_app_def js_sub_def js_max_def)
qed

text \<open>
  A skipped task still has its index in \<open>sorted\<close>: the task after it is painted in the row of
  its own index.
\<close>

lemma skipped_task_keeps_index:
  "Draw (app_of [task_backwards, task_workout]) 420 =
     Inr (app_of [task_backwards, task_workout],
          [\<lparr>band_task = task_workout, band_idx = 1, band_s = Fin 750, band_e = Fin 795,
            band_row = 1, band_y = 98, band_color = JStr (js ''#4857FF'')\<rparr>])"
proof -
  have o: "sorted_tasks [task_backwards, task_workout] = [task_backwards, task_workout]"
    using js_sub_int [of 600 750]
    by (simp add: sorted_tasks_def sort_cmp_def task_workout_def task_backwards_def
        toMinutes_examples toMinutes_1000)
  have v: "isValidHex (JStr (js ''#4857FF''))"
    by (simp add: isValidHex_def trim_def js_def is_ws_def is_hex_digit_def is_digit_def)
  have c: "safeColor task_workout = Inr (JStr (js ''#4857FF''))"
    using v by (simp add: safeColor_def task_workout_def)
  have s: "clamped_start (Fin 360) (Fin 960) task_workout = Fin 750"
    "clamped_end (Fin 360) (Fin 960) task_workout = Fin 795"
    by (simp_all add: clamped_start_def clamped_end_def task_workout_def
        window_end toMinutes_examples clamp_Fin)
  show ?thesis
    using skipped_backwards
    by (simp add: Draw_def app_of_simps rows_420 o Let_def s c rowHeight_def gaps_def skipped_def)
qed

end
